theory Spec2Isabelle
  imports Main
begin

section \<open>Values, function objects and the component instance\<close>

text \<open>
  The two source files are \<^verbatim>\<open>core/vdom/helpers/update-listeners.js\<close> (the event
  normalizer, the invoker and the listener reconciler) and
  \<^verbatim>\<open>core/instance/events.js\<close> (the per-instance event bus).

  JavaScript values that reach this code are \<^verbatim>\<open>undefined\<close>, \<^verbatim>\<open>null\<close> or a reference
  to an object (a function or an array of functions, per the Flow annotations
  \<^verbatim>\<open>Function | Array<Function>\<close>). Objects live in a heap; a reference is the index of
  the object, so \<^verbatim>\<open>===\<close> on references is equality of indices. Declaration maps are
  modelled by their own enumerable properties, in \<^verbatim>\<open>for ... in\<close> order; inherited
  properties are not modelled.
\<close>

datatype val = Undefined | Null | Ref nat

text \<open>Modelled from the spec: \<^verbatim>\<open>isUndef\<close> of shared/util is not among the sources. The
  specification speaks of a value that is absent or null:
  \<^verbatim>\<open>v === undefined || v === null\<close>.\<close>

definition isUndef :: "val \<Rightarrow> bool" where
  "isUndef v = (v = Undefined \<or> v = Null)"

text \<open>Modelled from the spec: \<^verbatim>\<open>isTrue\<close> of shared/util is not among the sources. The
  specification speaks of a descriptor flag that is set: \<^verbatim>\<open>v === true\<close>.\<close>

definition isTrue :: "bool \<Rightarrow> bool" where
  "isTrue b = (b = True)"

text \<open>JavaScript truthiness of a value of this domain (\<^verbatim>\<open>!fn\<close> is its negation).\<close>

definition truthy :: "val \<Rightarrow> bool" where
  "truthy v = (case v of Ref a \<Rightarrow> True | _ \<Rightarrow> False)"

text \<open>The \<^verbatim>\<open>this\<close> of a call and the \<^verbatim>\<open>vm\<close> token used for error attribution: either
  nothing (\<^verbatim>\<open>null\<close>/\<^verbatim>\<open>undefined\<close>) or the component instance.\<close>

datatype ctx = NoContext | Vm

datatype exn = TypeError | Thrown nat

datatype outcome = Return val | Throw exn

text \<open>An event argument of \<^verbatim>\<open>$on\<close>/\<^verbatim>\<open>$off\<close>: \<^verbatim>\<open>string | Array<string>\<close>.\<close>

datatype evspec = Name string | Names "string list"

text \<open>The argument list of \<^verbatim>\<open>$off\<close>: no argument at all, or an event and a callback
  (an omitted callback is \<^verbatim>\<open>undefined\<close>).\<close>

datatype offargs = OffAll | Off evspec val

text \<open>
  User callbacks are the environment of this code. A user callback is modelled as a
  script of bus operations on the instance followed by a normal return or a throw; it
  does not emit and does not call other functions.
\<close>

datatype action = DoOn evspec nat | DoOnce string nat | DoOff offargs

text \<open>
  The function objects of the heap: a user callback, an array of function references,
  the closure \<^verbatim>\<open>invoker\<close> of \<^verbatim>\<open>createFnInvoker\<close> (it captures \<^verbatim>\<open>vm\<close>), the closure
  \<^verbatim>\<open>onceHandler\<close> of \<^verbatim>\<open>createOnceHandler\<close> (it captures \<^verbatim>\<open>event\<close> and \<^verbatim>\<open>fn\<close>), and the
  closure \<^verbatim>\<open>on\<close> of \<^verbatim>\<open>$once\<close> (it captures \<^verbatim>\<open>event\<close> and \<^verbatim>\<open>fn\<close>). Every object carries
  the two properties this code reads and writes, \<^verbatim>\<open>fns\<close> and \<^verbatim>\<open>fn\<close>.
\<close>

datatype kind =
    User "action list" outcome
  | ArrayObj "nat list"
  | Invoker ctx
  | OnceHandler string nat
  | OnceOn string nat

record obj =
  obj_kind :: kind
  prop_fns :: val
  prop_fn :: val

text \<open>An entry of \<^verbatim>\<open>vm._events\<close>: \<^verbatim>\<open>null\<close> after a name-level clear, or an array.\<close>

datatype entry = Cleared | Cbs "nat list"

text \<open>Observable events: entry into the body of a user callback (with \<^verbatim>\<open>this\<close> and the
  arguments), a fault passed to the error handler (with \<^verbatim>\<open>vm\<close> and \<^verbatim>\<open>info\<close>), and the
  development-mode tip of \<^verbatim>\<open>$emit\<close> (lower-cased name and name).\<close>

datatype event = Called nat ctx "val list" | HandledError exn ctx string | Tip string string

record state =
  heap :: "obj list"
  vm_events :: "string \<rightharpoonup> entry"
  vm_hasHookEvent :: bool
  trace :: "event list"

definition get_fns :: "obj list \<Rightarrow> val \<Rightarrow> val" where
  "get_fns h v = (case v of Ref a \<Rightarrow> (if a < length h then prop_fns (h ! a) else Undefined)
                  | _ \<Rightarrow> Undefined)"

definition get_fn :: "obj list \<Rightarrow> nat \<Rightarrow> val" where
  "get_fn h a = (if a < length h then prop_fn (h ! a) else Undefined)"

definition set_fns :: "val \<Rightarrow> val \<Rightarrow> state \<Rightarrow> state" where
  "set_fns v x s = (case v of
       Ref a \<Rightarrow> s\<lparr>heap := (heap s)[a := (heap s ! a)\<lparr>prop_fns := x\<rparr>]\<rparr>
     | _ \<Rightarrow> s)"

definition alloc :: "kind \<Rightarrow> val \<Rightarrow> val \<Rightarrow> state \<Rightarrow> nat \<times> state" where
  "alloc k fns fn s =
     (length (heap s),
      s\<lparr>heap := heap s @ [\<lparr>obj_kind = k, prop_fns = fns, prop_fn = fn\<rparr>]\<rparr>)"

section \<open>The event normalizer\<close>

record descriptor =
  ev_name :: string
  ev_once :: bool
  ev_capture :: bool
  ev_passive :: bool

text \<open>\<^verbatim>\<open>normalizeEvent\<close> is the function below wrapped in \<^verbatim>\<open>cached\<close> (shared/util, not among
  the sources), which the specification describes as memoization by the input string;
  memoizing a function of the string alone does not change its results.
  \<^verbatim>\<open>s.charAt(i)\<close> is the one-character string at \<^verbatim>\<open>i\<close>, or the empty string.\<close>

definition charAt :: "string \<Rightarrow> nat \<Rightarrow> string" where
  "charAt s i = (if i < length s then [s ! i] else [])"

text \<open>\<^verbatim>\<open>s.slice(i)\<close> for a non-negative \<^verbatim>\<open>i\<close>.\<close>

definition slice :: "string \<Rightarrow> nat \<Rightarrow> string" where
  "slice s i = drop i s"

definition normalizeEvent :: "string \<Rightarrow> descriptor" where
  "normalizeEvent name0 =
     (let passive = (charAt name0 0 = ''&'');
          name1 = (if passive then slice name0 1 else name0);
          once = (charAt name1 0 = ''~'');
          name2 = (if once then slice name1 1 else name1);
          capture = (charAt name2 0 = ''!'');
          name3 = (if capture then slice name2 1 else name2)
      in \<lparr>ev_name = name3, ev_once = once, ev_capture = capture, ev_passive = passive\<rparr>)"

text \<open>The normalizer as the specification words it: test and strip one marker from the
  front of the remaining string, for the passive, the once and the capture marker in
  that order.\<close>

definition strip_marker :: "char \<Rightarrow> string \<Rightarrow> bool \<times> string" where
  "strip_marker c s = (case s of [] \<Rightarrow> (False, s)
                       | x # r \<Rightarrow> (if x = c then (True, r) else (False, s)))"

definition normalize_spec :: "string \<Rightarrow> descriptor" where
  "normalize_spec token =
     (case strip_marker CHR ''&'' token of (p, r1) \<Rightarrow>
      case strip_marker CHR ''~'' r1 of (o1, r2) \<Rightarrow>
      case strip_marker CHR ''!'' r2 of (c, r3) \<Rightarrow>
        \<lparr>ev_name = r3, ev_once = o1, ev_capture = c, ev_passive = p\<rparr>)"

definition carries_no_marker :: "string \<Rightarrow> bool" where
  "carries_no_marker token =
     (case token of [] \<Rightarrow> True
      | x # r \<Rightarrow> x \<noteq> CHR ''&'' \<and> x \<noteq> CHR ''~'' \<and> x \<noteq> CHR ''!'')"

section \<open>The instance event bus: subscribe and unsubscribe\<close>

text \<open>\<^verbatim>\<open>hookRE = /^hook:/\<close>, tested against the event name.\<close>

definition hookRE_test :: "string \<Rightarrow> bool" where
  "hookRE_test e = (take 5 e = ''hook:'')"

text \<open>The non-array branch of \<^verbatim>\<open>$on\<close>:
  \<^verbatim>\<open>(vm._events[event] || (vm._events[event] = [])).push(fn)\<close>, then the hook flag.\<close>

definition on_one :: "string \<Rightarrow> nat \<Rightarrow> state \<Rightarrow> state" where
  "on_one e f s =
     (let cbs = (case vm_events s e of Some (Cbs xs) \<Rightarrow> xs | _ \<Rightarrow> []);
          s1 = s\<lparr>vm_events := (vm_events s)(e \<mapsto> Cbs (cbs @ [f]))\<rparr>
      in if hookRE_test e then s1\<lparr>vm_hasHookEvent := True\<rparr> else s1)"

definition vm_on :: "evspec \<Rightarrow> nat \<Rightarrow> state \<Rightarrow> state" where
  "vm_on ev f s = (case ev of Name e \<Rightarrow> on_one e f s
                 | Names es \<Rightarrow> fold (\<lambda>e. on_one e f) es s)"

text \<open>The reverse scan of \<^verbatim>\<open>$off\<close>: \<^verbatim>\<open>while (i--) { cb = cbs[i]; if (cb === fn || cb.fn === fn)
  { cbs.splice(i, 1); break } }\<close>. The second argument is \<^verbatim>\<open>i\<close> before the test
  \<^verbatim>\<open>i--\<close>.\<close>

definition off_match :: "obj list \<Rightarrow> val \<Rightarrow> nat \<Rightarrow> bool" where
  "off_match h fn cb = (Ref cb = fn \<or> get_fn h cb = fn)"

fun off_scan :: "obj list \<Rightarrow> nat list \<Rightarrow> nat \<Rightarrow> val \<Rightarrow> nat list" where
  "off_scan h cbs 0 fn = cbs"
| "off_scan h cbs (Suc i) fn =
     (let cb = cbs ! i in
      if off_match h fn cb then take i cbs @ drop (Suc i) cbs
      else off_scan h cbs i fn)"

text \<open>\<^verbatim>\<open>$off(event, fn)\<close> for one event name (the part after the array test).\<close>

definition off_one :: "string \<Rightarrow> val \<Rightarrow> state \<Rightarrow> state" where
  "off_one e fn s =
     (case vm_events s e of
        None \<Rightarrow> s
      | Some Cleared \<Rightarrow> s
      | Some (Cbs cbs) \<Rightarrow>
          if \<not> truthy fn then s\<lparr>vm_events := (vm_events s)(e \<mapsto> Cleared)\<rparr>
          else s\<lparr>vm_events := (vm_events s)(e \<mapsto> Cbs (off_scan (heap s) cbs (length cbs) fn))\<rparr>)"

definition vm_off :: "offargs \<Rightarrow> state \<Rightarrow> state" where
  "vm_off a s = (case a of
       OffAll \<Rightarrow> s\<lparr>vm_events := Map.empty\<rparr>
     | Off (Names es) fn \<Rightarrow> fold (\<lambda>e. off_one e fn) es s
     | Off (Name e) fn \<Rightarrow> off_one e fn s)"

text \<open>\<^verbatim>\<open>$once(event, fn)\<close>: the closure \<^verbatim>\<open>on\<close> is allocated, \<^verbatim>\<open>on.fn = fn\<close>, and it is
  subscribed.\<close>

definition vm_once :: "string \<Rightarrow> nat \<Rightarrow> state \<Rightarrow> state" where
  "vm_once e f s = (case alloc (OnceOn e f) Undefined (Ref f) s of (w, s1) \<Rightarrow> vm_on (Name e) w s1)"

fun run_action :: "action \<Rightarrow> state \<Rightarrow> state" where
  "run_action (DoOn ev f) s = vm_on ev f s"
| "run_action (DoOnce e f) s = vm_once e f s"
| "run_action (DoOff a) s = vm_off a s"

definition run_actions :: "action list \<Rightarrow> state \<Rightarrow> state" where
  "run_actions acts s = fold run_action acts s"

section \<open>Calling function objects\<close>

text \<open>
  A call may go through invokers and once-wrappers that refer to each other through the
  heap, so function application takes fuel; \<open>None\<close> means the fuel ran out. The first
  argument \<open>ap\<close> of the definitions below is function application with the remaining
  fuel.
\<close>

type_synonym applier = "nat \<Rightarrow> ctx \<Rightarrow> val list \<Rightarrow> state \<Rightarrow> (outcome \<times> state) option"

text \<open>\<^verbatim>\<open>handler.apply(context, args)\<close>: applying what is not a function is a TypeError.\<close>

definition apply_val :: "applier \<Rightarrow> val \<Rightarrow> ctx \<Rightarrow> val list \<Rightarrow> state \<Rightarrow> (outcome \<times> state) option" where
  "apply_val ap v this args s =
     (case v of Ref f \<Rightarrow> ap f this args s | _ \<Rightarrow> Some (Throw TypeError, s))"

text \<open>
  Modelled from the spec: \<^verbatim>\<open>invokeWithErrorHandling\<close> of core/util is not among the
  sources. The specification describes it as the shared error-isolation boundary: the
  callback is invoked with the given context and arguments; a fault is tagged with the
  owning instance and the description and surfaced on the diagnostic channel, and is
  never re-thrown. A faulting invocation yields no value (\<^verbatim>\<open>undefined\<close>).
\<close>

definition invokeWithErrorHandling ::
  "applier \<Rightarrow> val \<Rightarrow> ctx \<Rightarrow> val list \<Rightarrow> ctx \<Rightarrow> string \<Rightarrow> state \<Rightarrow> (val \<times> state) option" where
  "invokeWithErrorHandling ap handler context args vm info s =
     (case apply_val ap handler context args s of
        None \<Rightarrow> None
      | Some (Return r, s1) \<Rightarrow> Some (r, s1)
      | Some (Throw e, s1) \<Rightarrow> Some (Undefined, s1\<lparr>trace := trace s1 @ [HandledError e vm info]\<rparr>))"

text \<open>The loop \<^verbatim>\<open>for (i = 0; i < l; i++) invokeWithErrorHandling(cbs[i], context, args, vm, info)\<close>
  over an array that is not modified while the loop runs.\<close>

fun invoke_each ::
  "applier \<Rightarrow> nat list \<Rightarrow> ctx \<Rightarrow> val list \<Rightarrow> ctx \<Rightarrow> string \<Rightarrow> state \<Rightarrow> state option" where
  "invoke_each ap [] context args vm info s = Some s"
| "invoke_each ap (cb # cbs) context args vm info s =
     (case invokeWithErrorHandling ap (Ref cb) context args vm info s of
        None \<Rightarrow> None
      | Some (r, s1) \<Rightarrow> invoke_each ap cbs context args vm info s1)"

definition isArray :: "obj list \<Rightarrow> val \<Rightarrow> bool" where
  "isArray h v = (case v of
       Ref a \<Rightarrow> a < length h \<and> (case obj_kind (h ! a) of ArrayObj xs \<Rightarrow> True | _ \<Rightarrow> False)
     | _ \<Rightarrow> False)"

definition array_elems :: "obj list \<Rightarrow> val \<Rightarrow> nat list" where
  "array_elems h v = (case v of
       Ref a \<Rightarrow> (if a < length h then (case obj_kind (h ! a) of ArrayObj xs \<Rightarrow> xs | _ \<Rightarrow> []) else [])
     | _ \<Rightarrow> [])"

text \<open>The body of \<^verbatim>\<open>invoker\<close> (createFnInvoker); \<open>self\<close> is the invoker object.\<close>

definition invoker :: "applier \<Rightarrow> nat \<Rightarrow> ctx \<Rightarrow> val list \<Rightarrow> state \<Rightarrow> (outcome \<times> state) option" where
  "invoker ap self vm args s =
     (let fns = get_fns (heap s) (Ref self) in
      if isArray (heap s) fns then
        (let cloned = array_elems (heap s) fns in
         case invoke_each ap cloned NoContext args vm ''v-on handler'' s of
           None \<Rightarrow> None
         | Some s1 \<Rightarrow> Some (Return Undefined, s1))
      else
        (case invokeWithErrorHandling ap fns NoContext args vm ''v-on handler'' s of
           None \<Rightarrow> None
         | Some (r, s1) \<Rightarrow> Some (Return r, s1)))"

text \<open>The body of \<^verbatim>\<open>onceHandler\<close> (createOnceHandler of events.js):
  \<^verbatim>\<open>res = fn.apply(null, arguments); if (res !== null) _target.$off(event, onceHandler)\<close>.\<close>

definition onceHandler :: "applier \<Rightarrow> nat \<Rightarrow> string \<Rightarrow> nat \<Rightarrow> val list \<Rightarrow> state \<Rightarrow> (outcome \<times> state) option" where
  "onceHandler ap self e fn args s =
     (case ap fn NoContext args s of
        None \<Rightarrow> None
      | Some (Throw x, s1) \<Rightarrow> Some (Throw x, s1)
      | Some (Return res, s1) \<Rightarrow>
          if res \<noteq> Null then Some (Return Undefined, vm_off (Off (Name e) (Ref self)) s1)
          else Some (Return Undefined, s1))"

text \<open>The body of the closure \<^verbatim>\<open>on\<close> of \<^verbatim>\<open>$once\<close>:
  \<^verbatim>\<open>vm.$off(event, on); fn.apply(vm, arguments)\<close>.\<close>

definition once_on :: "applier \<Rightarrow> nat \<Rightarrow> string \<Rightarrow> nat \<Rightarrow> val list \<Rightarrow> state \<Rightarrow> (outcome \<times> state) option" where
  "once_on ap self e fn args s =
     (let s1 = vm_off (Off (Name e) (Ref self)) s in
      case ap fn Vm args s1 of
        None \<Rightarrow> None
      | Some (Throw x, s2) \<Rightarrow> Some (Throw x, s2)
      | Some (Return r, s2) \<Rightarrow> Some (Return Undefined, s2))"

text \<open>
  Applying the object \<open>f\<close> with \<^verbatim>\<open>this\<close> and the arguments. A user callback is entered
  (recorded on the trace), runs its script and ends with its outcome; an array is not
  callable; the three closures run their bodies. A reference outside the heap does not
  occur in a JavaScript state and is treated as not callable.
\<close>

definition call_body :: "applier \<Rightarrow> applier" where
  "call_body ap f this args s =
     (if f < length (heap s) then
        (case obj_kind (heap s ! f) of
           User acts out \<Rightarrow>
             Some (out, run_actions acts (s\<lparr>trace := trace s @ [Called f this args]\<rparr>))
         | ArrayObj xs \<Rightarrow> Some (Throw TypeError, s)
         | Invoker vm \<Rightarrow> invoker ap f vm args s
         | OnceHandler e fn \<Rightarrow> onceHandler ap f e fn args s
         | OnceOn e fn \<Rightarrow> once_on ap f e fn args s)
      else Some (Throw TypeError, s))"

primrec call :: "nat \<Rightarrow> applier" where
  "call 0 = (\<lambda>f this args s. None)"
| "call (Suc n) = call_body (call n)"

section \<open>The instance event bus: emit\<close>

text \<open>Modelled from the spec: \<^verbatim>\<open>toArray\<close> of shared/util is not among the sources. The
  specification calls its result a shallow copy: a fresh array with the same elements.\<close>

definition toArray :: "nat list \<Rightarrow> nat list" where
  "toArray xs = xs"

text \<open>\<^verbatim>\<open>String.prototype.toLowerCase\<close> on event names, which are ASCII.\<close>

definition toLowerCase :: "string \<Rightarrow> string" where
  "toLowerCase s =
     map (\<lambda>c. let n = (of_char c :: nat) in if 65 \<le> n \<and> n \<le> 90 then char_of (n + 32) else c) s"

definition entry_truthy :: "entry option \<Rightarrow> bool" where
  "entry_truthy x = (case x of Some (Cbs xs) \<Rightarrow> True | _ \<Rightarrow> False)"

text \<open>The development-only block of \<^verbatim>\<open>$emit\<close>; \<open>production\<close> stands for
  \<^verbatim>\<open>process.env.NODE_ENV === 'production'\<close>. \<^verbatim>\<open>tip\<close>, \<^verbatim>\<open>formatComponentName\<close> and
  \<^verbatim>\<open>hyphenate\<close> are not among the sources; the specification treats the case mismatch as
  diagnostic only, so the tip is recorded with the two names and has no other effect.\<close>

definition emit_tip :: "bool \<Rightarrow> string \<Rightarrow> state \<Rightarrow> state" where
  "emit_tip production e s =
     (if \<not> production then
        (let lowerCaseEvent = toLowerCase e in
         if lowerCaseEvent \<noteq> e \<and> entry_truthy (vm_events s lowerCaseEvent)
         then s\<lparr>trace := trace s @ [Tip lowerCaseEvent e]\<rparr> else s)
      else s)"

definition emit_info :: "string \<Rightarrow> string" where
  "emit_info e = ''event handler for '' @ [CHR 0x22] @ e @ [CHR 0x22]"

text \<open>
  \<^verbatim>\<open>$emit(event, ...args)\<close>. When the array has at most one element the source iterates
  over the live array with the length read once; the only element is read before any
  callback has run, so iterating over the elements found at the start is the same.
\<close>

definition vm_emit :: "nat \<Rightarrow> bool \<Rightarrow> string \<Rightarrow> val list \<Rightarrow> state \<Rightarrow> state option" where
  "vm_emit fuel production e args s =
     (let s0 = emit_tip production e s in
      case vm_events s0 e of
        Some (Cbs cbs0) \<Rightarrow>
          (let cbs = (if length cbs0 > 1 then toArray cbs0 else cbs0)
           in invoke_each (call fuel) cbs Vm args Vm (emit_info e) s0)
      | _ \<Rightarrow> Some s0)"

section \<open>The listener reconciler\<close>

text \<open>The calls \<^verbatim>\<open>updateListeners\<close> makes to its injected primitives and to \<^verbatim>\<open>warn\<close>, in
  the order they are made. \<^verbatim>\<open>warn\<close> of core/util is not among the sources; the
  specification describes it as a non-fatal diagnostic, so a call to it is recorded with
  its message and its \<^verbatim>\<open>vm\<close> argument and has no other effect.\<close>

datatype hostcall =
    Warn string ctx
  | Add string nat bool bool val
  | Remove string val bool

text \<open>The injected primitives act on the state; \<^verbatim>\<open>createOnceHandler\<close> returns the new
  handler, a function object.\<close>

record host =
  host_add :: "string \<Rightarrow> nat \<Rightarrow> bool \<Rightarrow> bool \<Rightarrow> val \<Rightarrow> state \<Rightarrow> state"
  host_remove :: "string \<Rightarrow> val \<Rightarrow> bool \<Rightarrow> state \<Rightarrow> state"
  host_createOnceHandler :: "string \<Rightarrow> nat \<Rightarrow> bool \<Rightarrow> state \<Rightarrow> nat \<times> state"

type_synonym decls = "(string \<times> val) list"

text \<open>\<^verbatim>\<open>m[name]\<close>: the value of the property, \<^verbatim>\<open>undefined\<close> when there is none.\<close>

definition lookupv :: "decls \<Rightarrow> string \<Rightarrow> val" where
  "lookupv m k = (case map_of m k of Some v \<Rightarrow> v | None \<Rightarrow> Undefined)"

text \<open>\<^verbatim>\<open>String(cur)\<close>; the message is built only when \<^verbatim>\<open>isUndef(cur)\<close>.\<close>

definition String_of :: "val \<Rightarrow> string" where
  "String_of v = (case v of Undefined \<Rightarrow> ''undefined'' | Null \<Rightarrow> ''null'' | Ref a \<Rightarrow> ''function'')"

definition invalid_handler :: "string \<Rightarrow> val \<Rightarrow> string" where
  "invalid_handler n cur =
     ''Invalid handler for event '' @ [CHR 0x22] @ n @ [CHR 0x22] @ '': got '' @ String_of cur"

definition createFnInvoker :: "val \<Rightarrow> ctx \<Rightarrow> state \<Rightarrow> nat \<times> state" where
  "createFnInvoker fns vm s = alloc (Invoker vm) fns Undefined s"

text \<open>
  The body of the loop \<^verbatim>\<open>for (name in on)\<close> for the entry \<open>(name, cur)\<close>: it returns the
  value left in \<^verbatim>\<open>on[name]\<close>, the calls made, and the state. The values of this domain
  are never plain objects, so the \<^verbatim>\<open>__WEEX__ && isPlainObject(def)\<close> branch is not taken
  and \<^verbatim>\<open>event.params\<close> stays \<^verbatim>\<open>undefined\<close>.
\<close>

definition on_entry ::
  "bool \<Rightarrow> host \<Rightarrow> decls \<Rightarrow> ctx \<Rightarrow> string \<Rightarrow> val \<Rightarrow> state \<Rightarrow> val \<times> hostcall list \<times> state" where
  "on_entry production H oldOn vm name0 cur s =
     (let old = lookupv oldOn name0;
          event = normalizeEvent name0
      in
      if isUndef cur then
        (cur, (if \<not> production then [Warn (invalid_handler (ev_name event) cur) vm] else []), s)
      else if isUndef old then
        (case cur of
           Ref c \<Rightarrow>
             (case (if isUndef (get_fns (heap s) cur) then createFnInvoker cur vm s else (c, s)) of
                (c1, s1) \<Rightarrow>
             (case (if isTrue (ev_once event)
                    then host_createOnceHandler H (ev_name event) c1 (ev_capture event) s1
                    else (c1, s1)) of
                (c2, s2) \<Rightarrow>
                  (Ref c2,
                   [Add (ev_name event) c2 (ev_capture event) (ev_passive event) Undefined],
                   host_add H (ev_name event) c2 (ev_capture event) (ev_passive event) Undefined s2)))
         | _ \<Rightarrow> (cur, [], s))
      else if cur \<noteq> old then (old, [], set_fns old cur s)
      else (cur, [], s))"

fun loop_on ::
  "bool \<Rightarrow> host \<Rightarrow> decls \<Rightarrow> ctx \<Rightarrow> decls \<Rightarrow> state \<Rightarrow> decls \<times> hostcall list \<times> state" where
  "loop_on production H oldOn vm [] s = ([], [], s)"
| "loop_on production H oldOn vm ((name0, cur) # rest) s =
     (case on_entry production H oldOn vm name0 cur s of
        (cur1, calls1, s1) \<Rightarrow>
     (case loop_on production H oldOn vm rest s1 of
        (rest1, calls2, s2) \<Rightarrow> ((name0, cur1) # rest1, calls1 @ calls2, s2)))"

text \<open>The loop \<^verbatim>\<open>for (name in oldOn)\<close>; \<open>on\<close> is the new map as the first loop left it.\<close>

fun loop_oldOn :: "host \<Rightarrow> decls \<Rightarrow> decls \<Rightarrow> state \<Rightarrow> hostcall list \<times> state" where
  "loop_oldOn H on [] s = ([], s)"
| "loop_oldOn H on ((name0, old) # rest) s =
     (if isUndef (lookupv on name0) then
        (let event = normalizeEvent name0 in
         case loop_oldOn H on rest (host_remove H (ev_name event) old (ev_capture event) s) of
           (calls, s1) \<Rightarrow> (Remove (ev_name event) old (ev_capture event) # calls, s1))
      else loop_oldOn H on rest s)"

definition updateListeners ::
  "bool \<Rightarrow> host \<Rightarrow> decls \<Rightarrow> decls \<Rightarrow> ctx \<Rightarrow> state \<Rightarrow> decls \<times> hostcall list \<times> state" where
  "updateListeners production H on oldOn vm s =
     (case loop_on production H oldOn vm on s of
        (on1, calls1, s1) \<Rightarrow>
     (case loop_oldOn H on1 oldOn s1 of
        (calls2, s2) \<Rightarrow> (on1, calls1 @ calls2, s2)))"

section \<open>The primitives of events.js and initialisation\<close>

text \<open>\<^verbatim>\<open>add\<close>, \<^verbatim>\<open>remove\<close> and \<^verbatim>\<open>createOnceHandler\<close> of events.js; \<^verbatim>\<open>target\<close> is the
  instance.\<close>

definition add :: "string \<Rightarrow> nat \<Rightarrow> bool \<Rightarrow> bool \<Rightarrow> val \<Rightarrow> state \<Rightarrow> state" where
  "add e fn capture passive params s = vm_on (Name e) fn s"

definition remove :: "string \<Rightarrow> val \<Rightarrow> bool \<Rightarrow> state \<Rightarrow> state" where
  "remove e fn capture s = vm_off (Off (Name e) fn) s"

definition createOnceHandler :: "string \<Rightarrow> nat \<Rightarrow> bool \<Rightarrow> state \<Rightarrow> nat \<times> state" where
  "createOnceHandler e fn capture s = alloc (OnceHandler e fn) Undefined Undefined s"

definition events_host :: host where
  "events_host = \<lparr>host_add = add, host_remove = remove,
                  host_createOnceHandler = createOnceHandler\<rparr>"

definition updateComponentListeners ::
  "bool \<Rightarrow> decls \<Rightarrow> decls option \<Rightarrow> state \<Rightarrow> decls \<times> hostcall list \<times> state" where
  "updateComponentListeners production listeners oldListeners s =
     updateListeners production events_host listeners
       (case oldListeners of Some l \<Rightarrow> l | None \<Rightarrow> []) Vm s"

definition initEvents :: "bool \<Rightarrow> decls option \<Rightarrow> state \<Rightarrow> state" where
  "initEvents production parentListeners s =
     (let s1 = s\<lparr>vm_events := Map.empty, vm_hasHookEvent := False\<rparr> in
      case parentListeners of
        None \<Rightarrow> s1
      | Some listeners \<Rightarrow>
          (case updateComponentListeners production listeners None s1 of (on1, calls, s2) \<Rightarrow> s2))"


section \<open>Example states\<close>

text \<open>A heap with three user callbacks without bus operations: the first returns
  \<^verbatim>\<open>undefined\<close>, the second returns \<^verbatim>\<open>null\<close>, the third throws.\<close>

definition example_state :: state where
  "example_state =
     \<lparr>heap = [\<lparr>obj_kind = User [] (Return Undefined), prop_fns = Undefined, prop_fn = Undefined\<rparr>,
              \<lparr>obj_kind = User [] (Return Null), prop_fns = Undefined, prop_fn = Undefined\<rparr>,
              \<lparr>obj_kind = User [] (Throw (Thrown 7)), prop_fns = Undefined, prop_fn = Undefined\<rparr>],
      vm_events = Map.empty, vm_hasHookEvent = False, trace = []\<rparr>"

text \<open>A bus with a plain subscription, a once-subscription and a second plain
  subscription under the same name.\<close>

definition scan_state :: state where
  "scan_state = vm_on (Name ''e'') 0 (vm_once ''e'' 1 (vm_on (Name ''e'') 0 example_state))"

section \<open>Reading the calls of a reconciliation pass\<close>



text \<open>The calls made by a pass.\<close>

definition calls_of :: "decls \<times> hostcall list \<times> state \<Rightarrow> hostcall list" where
  "calls_of r = fst (snd r)"

text \<open>A first pass over \<^verbatim>\<open>{a: f0}\<close> on the example state, with the primitives of events.js.\<close>

definition first_pass :: "decls \<times> hostcall list \<times> state" where
  "first_pass = updateComponentListeners True [(''a'', Ref 0)] None example_state"

section \<open>Reading heaps and traces\<close>

text \<open>A user callback of the heap, its script and its outcome.\<close>

definition is_user :: "obj list \<Rightarrow> nat \<Rightarrow> bool" where
  "is_user h f = (f < length h \<and> (case obj_kind (h ! f) of User acts out \<Rightarrow> True | _ \<Rightarrow> False))"

definition user_actions :: "obj list \<Rightarrow> nat \<Rightarrow> action list" where
  "user_actions h f = (case obj_kind (h ! f) of User acts out \<Rightarrow> acts | _ \<Rightarrow> [])"

definition user_outcome :: "obj list \<Rightarrow> nat \<Rightarrow> outcome" where
  "user_outcome h f = (case obj_kind (h ! f) of User acts out \<Rightarrow> out | _ \<Rightarrow> Throw TypeError)"

text \<open>The closure \<^verbatim>\<open>on\<close> that \<^verbatim>\<open>$once\<close> makes for a user callback.\<close>

definition is_once_wrapper :: "obj list \<Rightarrow> nat \<Rightarrow> bool" where
  "is_once_wrapper h x =
     (x < length h \<and> (case obj_kind (h ! x) of OnceOn e f \<Rightarrow> is_user h f | _ \<Rightarrow> False))"

text \<open>The user callback behind a bus entry: the entry itself, or the callback a
  once-wrapper forwards to.\<close>

definition target :: "obj list \<Rightarrow> nat \<Rightarrow> nat" where
  "target h x = (case obj_kind (h ! x) of OnceOn e f \<Rightarrow> f | _ \<Rightarrow> x)"

text \<open>The heap \<open>h'\<close> has the objects of \<open>h\<close>, unchanged, and possibly more.\<close>

definition extends :: "obj list \<Rightarrow> obj list \<Rightarrow> bool" where
  "extends h h' = (take (length h) h' = h)"

fun is_Called :: "event \<Rightarrow> bool" where
  "is_Called (Called f this args) = True"
| "is_Called (HandledError x vm info) = False"
| "is_Called (Tip l e) = False"

text \<open>The trace entries of one error-isolated invocation of the user callback \<open>f\<close>.\<close>

definition invocation :: "obj list \<Rightarrow> nat \<Rightarrow> ctx \<Rightarrow> val list \<Rightarrow> ctx \<Rightarrow> string \<Rightarrow> event list" where
  "invocation h f this args vm info =
     Called f this args #
       (case user_outcome h f of Throw x \<Rightarrow> [HandledError x vm info] | Return r \<Rightarrow> [])"

text \<open>A bus entry this development follows through an emission: a user callback or the
  once-wrapper of one.\<close>

definition subscriber :: "obj list \<Rightarrow> nat \<Rightarrow> bool" where
  "subscriber h x = (is_user h x \<or> is_once_wrapper h x)"

section \<open>Subscriptions as the specification words them\<close>

text \<open>
  A subscription is a callback together with whether it was subscribed once. The
  specification's bus maps every name to its sequence of subscriptions: subscribing
  appends (no deduplication); unsubscribing without arguments clears the bus, with a
  name only clears that name, and with a name and a callback removes the match closest
  to the end, where an entry matches when its callback is the given one.
\<close>

type_synonym subscription = "nat \<times> bool"

type_synonym subscriptions = "string \<Rightarrow> subscription list"

fun remove_first :: "('a \<Rightarrow> bool) \<Rightarrow> 'a list \<Rightarrow> 'a list" where
  "remove_first P [] = []"
| "remove_first P (x # xs) = (if P x then xs else x # remove_first P xs)"

definition remove_last :: "('a \<Rightarrow> bool) \<Rightarrow> 'a list \<Rightarrow> 'a list" where
  "remove_last P xs = rev (remove_first P (rev xs))"

definition subscribe1 :: "string \<Rightarrow> subscription \<Rightarrow> subscriptions \<Rightarrow> subscriptions" where
  "subscribe1 e x S = S(e := S e @ [x])"

definition unsubscribe1 :: "string \<Rightarrow> val \<Rightarrow> subscriptions \<Rightarrow> subscriptions" where
  "unsubscribe1 e fn S =
     (if truthy fn then S(e := remove_last (\<lambda>x. Ref (fst x) = fn) (S e)) else S(e := []))"

fun spec_step :: "action \<Rightarrow> subscriptions \<Rightarrow> subscriptions" where
  "spec_step (DoOn ev f) S =
     (case ev of Name e \<Rightarrow> subscribe1 e (f, False) S
      | Names es \<Rightarrow> fold (\<lambda>e. subscribe1 e (f, False)) es S)"
| "spec_step (DoOnce e f) S = subscribe1 e (f, True) S"
| "spec_step (DoOff a) S =
     (case a of OffAll \<Rightarrow> (\<lambda>e. [])
      | Off (Name e) fn \<Rightarrow> unsubscribe1 e fn S
      | Off (Names es) fn \<Rightarrow> fold (\<lambda>e. unsubscribe1 e fn) es S)"

definition subscribed :: "action list \<Rightarrow> subscriptions" where
  "subscribed ops = fold spec_step ops (\<lambda>e. [])"

text \<open>A user callback that carries no \<^verbatim>\<open>fn\<close> property.\<close>

definition plain_user :: "obj list \<Rightarrow> nat \<Rightarrow> bool" where
  "plain_user h f = (is_user h f \<and> prop_fn (h ! f) = Undefined)"

text \<open>The operations of a sequence subscribe plain user callbacks of the heap \<open>h\<close> and
  unsubscribe objects of \<open>h\<close>.\<close>

fun op_ok :: "obj list \<Rightarrow> action \<Rightarrow> bool" where
  "op_ok h (DoOn ev f) = plain_user h f"
| "op_ok h (DoOnce e f) = plain_user h f"
| "op_ok h (DoOff a) =
     (case a of OffAll \<Rightarrow> True
      | Off ev fn \<Rightarrow> (case fn of Ref g \<Rightarrow> g < length h | _ \<Rightarrow> True))"

text \<open>A bus entry \<open>x\<close> stands for the subscription \<open>y\<close>: the callback itself, or a
  once-wrapper allocated after \<open>h0\<close> that records the callback. The bus implements the
  subscriptions \<open>S\<close> when, name by name, its callbacks stand for the subscriptions in
  order; a name without an array has no callbacks.\<close>

definition stands_for :: "obj list \<Rightarrow> obj list \<Rightarrow> nat \<Rightarrow> subscription \<Rightarrow> bool" where
  "stands_for h0 h x y =
     (plain_user h0 (fst y) \<and>
      (if snd y
       then length h0 \<le> x \<and> x < length h \<and> prop_fn (h ! x) = Ref (fst y)
            \<and> (case obj_kind (h ! x) of OnceOn e f \<Rightarrow> f = fst y | _ \<Rightarrow> False)
       else x = fst y))"

definition entry_cbs :: "entry option \<Rightarrow> nat list" where
  "entry_cbs x = (case x of Some (Cbs xs) \<Rightarrow> xs | _ \<Rightarrow> [])"

definition bus_rel :: "obj list \<Rightarrow> state \<Rightarrow> subscriptions \<Rightarrow> bool" where
  "bus_rel h0 s S =
     (extends h0 (heap s) \<and>
      (\<forall>e. list_all2 (stands_for h0 (heap s)) (entry_cbs (vm_events s e)) (S e)))"

section \<open>Example states for the bus\<close>

text \<open>A heap whose first callback unsubscribes the second and subscribes itself again
  while it runs, whose second callback throws and whose third returns \<^verbatim>\<open>null\<close>; and a
  sequence of bus operations on it.\<close>

definition emit_state :: state where
  "emit_state =
     \<lparr>heap = [\<lparr>obj_kind = User [DoOff (Off (Name ''e'') (Ref 1)), DoOn (Name ''e'') 0] (Return Undefined),
                prop_fns = Undefined, prop_fn = Undefined\<rparr>,
              \<lparr>obj_kind = User [] (Throw (Thrown 7)), prop_fns = Undefined, prop_fn = Undefined\<rparr>,
              \<lparr>obj_kind = User [] (Return Null), prop_fns = Undefined, prop_fn = Undefined\<rparr>],
      vm_events = Map.empty, vm_hasHookEvent = False, trace = []\<rparr>"

definition emit_ops :: "action list" where
  "emit_ops = [DoOn (Name ''e'') 0, DoOnce ''e'' 1, DoOn (Name ''e'') 2,
               DoOff (Off (Name ''e'') (Ref 2)), DoOn (Name ''e'') 2]"

section \<open>Example states for faults and one-shot handlers\<close>

text \<open>The example state with the throwing callback and then the first callback
  subscribed under one name.\<close>

definition fault_state :: state where
  "fault_state = vm_on (Name ''e'') 0 (vm_on (Name ''e'') 2 example_state)"



section \<open>The event normalizer: markers are parsed in a fixed order\<close>

lemma strip_marker_charAt:
  "strip_marker c s = (charAt s 0 = [c], if charAt s 0 = [c] then slice s 1 else s)"
  by (cases s) (auto simp: strip_marker_def charAt_def slice_def)

text \<open>
  Claim C8. For every raw token, \<open>normalizeEvent\<close> tests and strips the passive marker
  first, then the once marker, then the capture marker, each from the front of the
  remaining string (it agrees with \<open>normalize_spec\<close>, which is worded that way); the
  token is the stripped markers followed by the canonical name; and a token that
  carries no marker comes back as the name with all three flags false. The result
  depends on the token alone.
\<close>

theorem normalizeEvent_fixed_order:
  "normalizeEvent token = normalize_spec token
   \<and> token = (if ev_passive (normalizeEvent token) then ''&'' else [])
            @ (if ev_once (normalizeEvent token) then ''~'' else [])
            @ (if ev_capture (normalizeEvent token) then ''!'' else [])
            @ ev_name (normalizeEvent token)
   \<and> (carries_no_marker token \<longrightarrow>
        normalizeEvent token =
          \<lparr>ev_name = token, ev_once = False, ev_capture = False, ev_passive = False\<rparr>)"
proof (intro conjI impI)
  show "normalizeEvent token = normalize_spec token"
    by (simp add: normalizeEvent_def normalize_spec_def strip_marker_charAt Let_def)
next
  have c: "\<And>s c. charAt s 0 = [c] \<Longrightarrow> s = c # slice s 1"
    by (case_tac s) (auto simp: charAt_def slice_def)
  show "token = (if ev_passive (normalizeEvent token) then ''&'' else [])
            @ (if ev_once (normalizeEvent token) then ''~'' else [])
            @ (if ev_capture (normalizeEvent token) then ''!'' else [])
            @ ev_name (normalizeEvent token)"
    by (auto simp: normalizeEvent_def Let_def dest!: c)
next
  assume "carries_no_marker token"
  then show "normalizeEvent token =
          \<lparr>ev_name = token, ev_once = False, ev_capture = False, ev_passive = False\<rparr>"
    by (cases token) (auto simp: carries_no_marker_def normalizeEvent_def charAt_def Let_def)
qed

theorem normalizeEvent_fixed_order_witness:
  "carries_no_marker ''click''
   \<and> normalizeEvent ''click'' =
       \<lparr>ev_name = ''click'', ev_once = False, ev_capture = False, ev_passive = False\<rparr>
   \<and> normalizeEvent ''&~!click'' = normalize_spec ''&~!click''"
proof -
  have h: "carries_no_marker ''click''" by (simp add: carries_no_marker_def)
  from normalizeEvent_fixed_order [of "''click''"] h
  have "normalizeEvent ''click'' =
       \<lparr>ev_name = ''click'', ev_once = False, ev_capture = False, ev_passive = False\<rparr>"
    by blast
  moreover from normalizeEvent_fixed_order [of "''&~!click''"]
  have "normalizeEvent ''&~!click'' = normalize_spec ''&~!click''" by blast
  ultimately show ?thesis using h by blast
qed

section \<open>Subscribing and unsubscribing: the hook flag\<close>

lemma on_one_flag: "vm_hasHookEvent (on_one e f s) = (hookRE_test e \<or> vm_hasHookEvent s)"
  by (simp add: on_one_def Let_def)

lemma off_one_flag: "vm_hasHookEvent (off_one e fn s) = vm_hasHookEvent s"
  by (simp add: off_one_def split: option.splits entry.splits)

lemma fold_off_one_flag: "vm_hasHookEvent (fold (\<lambda>e. off_one e fn) es s) = vm_hasHookEvent s"
  by (induction es arbitrary: s) (simp_all add: off_one_flag)

lemma vm_off_flag: "vm_hasHookEvent (vm_off a s) = vm_hasHookEvent s"
proof (cases a)
  case OffAll
  then show ?thesis by (simp add: vm_off_def)
next
  case (Off ev fn)
  then show ?thesis by (cases ev) (simp_all add: vm_off_def off_one_flag fold_off_one_flag)
qed

lemma fold_vm_off_flag: "vm_hasHookEvent (fold vm_off as s) = vm_hasHookEvent s"
  by (induction as arbitrary: s) (simp_all add: vm_off_flag)

section \<open>Unsubscribing one callback: the reverse scan\<close>

lemma off_scan_no_match:
  "(\<And>j. j < i \<Longrightarrow> \<not> off_match h fn (cbs ! j)) \<Longrightarrow> off_scan h cbs i fn = cbs"
  by (induction i) (simp_all add: Let_def)

lemma off_scan_last_match:
  "j < i \<Longrightarrow> off_match h fn (cbs ! j) \<Longrightarrow> (\<And>k. j < k \<Longrightarrow> k < i \<Longrightarrow> \<not> off_match h fn (cbs ! k))
   \<Longrightarrow> off_scan h cbs i fn = take j cbs @ drop (Suc j) cbs"
proof (induction i)
  case 0
  then show ?case by simp
next
  case (Suc i)
  show ?case
  proof (cases "j = i")
    case True
    with Suc.prems show ?thesis by (simp add: Let_def)
  next
    case False
    with Suc.prems have "j < i" by simp
    moreover from Suc.prems \<open>j < i\<close> have "\<not> off_match h fn (cbs ! i)" by simp
    ultimately show ?thesis using Suc by (simp add: Let_def)
  qed
qed

lemma off_scan_split:
  assumes "off_match h fn cb" and "\<forall>x\<in>set post. \<not> off_match h fn x"
  shows "off_scan h (pre @ cb # post) (length (pre @ cb # post)) fn = pre @ post"
proof -
  let ?cbs = "pre @ cb # post"
  have 1: "length pre < length ?cbs" by simp
  have 2: "off_match h fn (?cbs ! length pre)" using assms(1) by simp
  have 3: "\<And>k. length pre < k \<Longrightarrow> k < length ?cbs \<Longrightarrow> \<not> off_match h fn (?cbs ! k)"
  proof -
    fix k assume k: "length pre < k" "k < length ?cbs"
    then have "?cbs ! k = post ! (k - Suc (length pre))"
      by (simp add: nth_append nth_Cons')
    moreover from k have "k - Suc (length pre) < length post" by simp
    ultimately show "\<not> off_match h fn (?cbs ! k)" using assms(2) by simp
  qed
  from off_scan_last_match [of "length pre" "length ?cbs" h fn ?cbs, OF 1 2 3]
  show ?thesis by simp
qed

lemma off_scan_none:
  assumes "\<forall>x\<in>set cbs. \<not> off_match h fn x"
  shows "off_scan h cbs (length cbs) fn = cbs"
  using assms by (intro off_scan_no_match) simp

text \<open>
  Claim C7. \<^verbatim>\<open>$off(name, fn)\<close> with a callback: when the name has no array (absent or
  cleared) the state is unchanged. Otherwise only the array of that name changes, and
  at most one entry leaves it: when no entry matches (equal to \<open>fn\<close> by reference, or
  carrying \<open>fn\<close> as its \<^verbatim>\<open>fn\<close> property) the array is unchanged; when some entry
  matches, the match closest to the end is removed and all other entries keep their
  order.
\<close>

theorem off_removes_last_match_only:
  "((vm_events s e = None \<or> vm_events s e = Some Cleared) \<longrightarrow>
       vm_off (Off (Name e) (Ref g)) s = s)
   \<and> (vm_events s e = Some (Cbs cbs) \<longrightarrow>
        (\<exists>cbs'. vm_off (Off (Name e) (Ref g)) s = s\<lparr>vm_events := (vm_events s)(e \<mapsto> Cbs cbs')\<rparr>
           \<and> ((\<forall>x\<in>set cbs. \<not> off_match (heap s) (Ref g) x) \<longrightarrow> cbs' = cbs)
           \<and> (\<forall>pre cb post. cbs = pre @ cb # post \<and> off_match (heap s) (Ref g) cb
                  \<and> (\<forall>x\<in>set post. \<not> off_match (heap s) (Ref g) x) \<longrightarrow> cbs' = pre @ post)))"
proof (intro conjI impI)
  assume "vm_events s e = None \<or> vm_events s e = Some Cleared"
  then show "vm_off (Off (Name e) (Ref g)) s = s"
    by (auto simp: vm_off_def off_one_def)
next
  assume a: "vm_events s e = Some (Cbs cbs)"
  let ?cbs' = "off_scan (heap s) cbs (length cbs) (Ref g)"
  have "vm_off (Off (Name e) (Ref g)) s = s\<lparr>vm_events := (vm_events s)(e \<mapsto> Cbs ?cbs')\<rparr>"
    using a by (simp add: vm_off_def off_one_def truthy_def)
  moreover have "(\<forall>x\<in>set cbs. \<not> off_match (heap s) (Ref g) x) \<longrightarrow> ?cbs' = cbs"
    by (simp add: off_scan_none)
  moreover have "\<forall>pre cb post. cbs = pre @ cb # post \<and> off_match (heap s) (Ref g) cb
                  \<and> (\<forall>x\<in>set post. \<not> off_match (heap s) (Ref g) x) \<longrightarrow> ?cbs' = pre @ post"
    using off_scan_split by blast
  ultimately show "\<exists>cbs'. vm_off (Off (Name e) (Ref g)) s = s\<lparr>vm_events := (vm_events s)(e \<mapsto> Cbs cbs')\<rparr>
           \<and> ((\<forall>x\<in>set cbs. \<not> off_match (heap s) (Ref g) x) \<longrightarrow> cbs' = cbs)
           \<and> (\<forall>pre cb post. cbs = pre @ cb # post \<and> off_match (heap s) (Ref g) cb
                  \<and> (\<forall>x\<in>set post. \<not> off_match (heap s) (Ref g) x) \<longrightarrow> cbs' = pre @ post)"
    by blast
qed



lemma scan_state_events: "vm_events scan_state ''e'' = Some (Cbs [0, 3, 0])"
  by (simp add: scan_state_def example_state_def vm_on_def vm_once_def on_one_def alloc_def
        hookRE_test_def Let_def)

lemma scan_state_heap:
  "heap scan_state = heap example_state @ [\<lparr>obj_kind = OnceOn ''e'' 1, prop_fns = Undefined, prop_fn = Ref 1\<rparr>]"
  by (simp add: scan_state_def example_state_def vm_on_def vm_once_def on_one_def alloc_def
        hookRE_test_def Let_def)

theorem off_removes_last_match_only_witness:
  "vm_events scan_state ''e'' = Some (Cbs [0, 3, 0])
   \<and> off_match (heap scan_state) (Ref 1) 3
   \<and> vm_off (Off (Name ''e'') (Ref 1)) scan_state =
       scan_state\<lparr>vm_events := (vm_events scan_state)(''e'' \<mapsto> Cbs [0, 0])\<rparr>"
proof -
  have m: "off_match (heap scan_state) (Ref 1) 3"
    by (simp add: scan_state_heap example_state_def off_match_def get_fn_def)
  have n: "\<forall>x\<in>set [0]. \<not> off_match (heap scan_state) (Ref 1) x"
    by (simp add: scan_state_heap example_state_def off_match_def get_fn_def)
  from off_removes_last_match_only [of scan_state "''e''" 1 "[0, 3, 0]"] scan_state_events
  obtain cbs' where
    1: "vm_off (Off (Name ''e'') (Ref 1)) scan_state =
          scan_state\<lparr>vm_events := (vm_events scan_state)(''e'' \<mapsto> Cbs cbs')\<rparr>"
    and 2: "\<forall>pre cb post. [0, 3, 0] = pre @ cb # post \<and> off_match (heap scan_state) (Ref 1) cb
                  \<and> (\<forall>x\<in>set post. \<not> off_match (heap scan_state) (Ref 1) x) \<longrightarrow> cbs' = pre @ post"
    by blast
  from 2 [rule_format, of "[0]" 3 "[0]"] m n have "cbs' = [0, 0]" by simp
  with 1 m scan_state_events show ?thesis by simp
qed

section \<open>The reconciler: which calls a pass makes\<close>

lemma on_entry_undef:
  "isUndef cur \<Longrightarrow> on_entry production H oldOn vm k cur s =
     (cur, (if production then [] else [Warn (invalid_handler (ev_name (normalizeEvent k)) cur) vm]), s)"
  by (simp add: on_entry_def Let_def)

lemma on_entry_same:
  "\<not> isUndef cur \<Longrightarrow> lookupv oldOn k = cur \<Longrightarrow> on_entry production H oldOn vm k cur s = (cur, [], s)"
  by (simp add: on_entry_def Let_def)

lemma on_entry_changed:
  "\<not> isUndef cur \<Longrightarrow> \<not> isUndef (lookupv oldOn k) \<Longrightarrow> lookupv oldOn k \<noteq> cur \<Longrightarrow>
   on_entry production H oldOn vm k cur s = (lookupv oldOn k, [], set_fns (lookupv oldOn k) cur s)"
  by (auto simp add: on_entry_def Let_def)

lemma on_entry_new:
  "\<not> isUndef cur \<Longrightarrow> isUndef (lookupv oldOn k) \<Longrightarrow>
   \<exists>h s'. on_entry production H oldOn vm k cur s =
     (Ref h, [Add (ev_name (normalizeEvent k)) h (ev_capture (normalizeEvent k))
                (ev_passive (normalizeEvent k)) Undefined], s')"
  by (cases cur) (auto simp add: on_entry_def Let_def isUndef_def split: prod.splits)

lemma on_entry_value_undef:
  "isUndef (fst (on_entry production H oldOn vm k cur s)) = isUndef cur"
proof (cases "isUndef cur")
  case True
  then show ?thesis by (simp add: on_entry_undef)
next
  case False
  note c = this
  show ?thesis
  proof (cases "isUndef (lookupv oldOn k)")
    case True
    from on_entry_new [OF c True, of production H vm s] c show ?thesis
      by (auto simp: isUndef_def)
  next
    case False
    with c show ?thesis
      by (cases "lookupv oldOn k = cur") (simp_all add: on_entry_same on_entry_changed)
  qed
qed



lemma loop_on_append:
  "loop_on production H oldOn vm (xs @ ys) s =
     (case loop_on production H oldOn vm xs s of (xs1, c1, s1) \<Rightarrow>
      case loop_on production H oldOn vm ys s1 of (ys1, c2, s2) \<Rightarrow> (xs1 @ ys1, c1 @ c2, s2))"
  by (induction xs arbitrary: s) (auto split: prod.splits)

lemma loop_on_keys:
  "map fst (fst (loop_on production H oldOn vm on s)) = map fst on"
  by (induction on arbitrary: s) (auto simp: split_beta)

lemma loop_on_lookup_undef:
  "isUndef (lookupv (fst (loop_on production H oldOn vm on s)) k) = isUndef (lookupv on k)"
proof (induction on arbitrary: s)
  case Nil
  then show ?case by simp
next
  case (Cons a on)
  obtain k0 cur where a: "a = (k0, cur)" by (cases a)
  obtain cur1 calls1 s1 where e: "on_entry production H oldOn vm k0 cur s = (cur1, calls1, s1)"
    by (cases "on_entry production H oldOn vm k0 cur s")
  obtain rest1 calls2 s2 where l: "loop_on production H oldOn vm on s1 = (rest1, calls2, s2)"
    by (cases "loop_on production H oldOn vm on s1")
  have u: "isUndef cur1 = isUndef cur"
    using on_entry_value_undef [of production H oldOn vm k0 cur s] e by simp
  have r: "isUndef (lookupv rest1 k) = isUndef (lookupv on k)"
    using Cons.IH [of s1] l by simp
  show ?case
    using u r by (simp add: a e l lookupv_def)
qed



lemma loop_oldOn_calls:
  "fst (loop_oldOn H on oldOn s) =
     map (\<lambda>(k, old). Remove (ev_name (normalizeEvent k)) old (ev_capture (normalizeEvent k)))
       (filter (\<lambda>(k, old). isUndef (lookupv on k)) oldOn)"
  by (induction oldOn arbitrary: s) (auto simp: Let_def split_beta)

lemma updateListeners_calls:
  "calls_of (updateListeners production H on oldOn vm s) =
     fst (snd (loop_on production H oldOn vm on s))
     @ map (\<lambda>(k, old). Remove (ev_name (normalizeEvent k)) old (ev_capture (normalizeEvent k)))
         (filter (\<lambda>(k, old). isUndef (lookupv on k)) oldOn)"
proof -
  obtain on1 calls1 s1 where l: "loop_on production H oldOn vm on s = (on1, calls1, s1)"
    by (cases "loop_on production H oldOn vm on s")
  obtain calls2 s2 where o: "loop_oldOn H on1 oldOn s1 = (calls2, s2)"
    by (cases "loop_oldOn H on1 oldOn s1")
  have u: "\<And>k. isUndef (lookupv on1 k) = isUndef (lookupv on k)"
    using loop_on_lookup_undef [of production H oldOn vm on s] l by simp
  have "calls2 = map (\<lambda>(k, old). Remove (ev_name (normalizeEvent k)) old (ev_capture (normalizeEvent k)))
         (filter (\<lambda>(k, old). isUndef (lookupv on1 k)) oldOn)"
    using loop_oldOn_calls [of H on1 oldOn s1] o by simp
  then show ?thesis
    by (simp add: calls_of_def updateListeners_def l o u)
qed





lemma normalizeEvent_a:
  "normalizeEvent ''a'' = \<lparr>ev_name = ''a'', ev_once = False, ev_capture = False, ev_passive = False\<rparr>"
  by (simp add: normalizeEvent_def charAt_def Let_def)



lemma first_pass_eval:
  "first_pass =
     ([(''a'', Ref 3)], [Add ''a'' 3 False False Undefined],
      example_state\<lparr>heap := heap example_state @
                        [\<lparr>obj_kind = Invoker Vm, prop_fns = Ref 0, prop_fn = Undefined\<rparr>],
                     vm_events := [''a'' \<mapsto> Cbs [3]]\<rparr>)"
  by (simp add: first_pass_def updateComponentListeners_def updateListeners_def on_entry_def
        lookupv_def isUndef_def isTrue_def normalizeEvent_a get_fns_def example_state_def
        createFnInvoker_def alloc_def events_host_def add_def vm_on_def on_one_def
        hookRE_test_def Let_def numeral_3_eq_3)

text \<open>
  Claim C1, as stated, fails. After a first pass over \<^verbatim>\<open>{a: f0}\<close>, a pass whose new map is
  \<^verbatim>\<open>{a: null}\<close> issues \<^verbatim>\<open>remove("a", invoker, false)\<close> for that very name, which empties the
  bus entry; and in a production build no diagnostic is issued.
\<close>

theorem undefined_entry_triggers_remove:
  "calls_of (updateComponentListeners False [(''a'', Null)] (Some (fst first_pass))
       (snd (snd first_pass))) =
     [Warn (invalid_handler ''a'' Null) Vm, Remove ''a'' (Ref 3) False]
   \<and> calls_of (updateComponentListeners True [(''a'', Null)] (Some (fst first_pass))
       (snd (snd first_pass))) = [Remove ''a'' (Ref 3) False]
   \<and> vm_events (snd (snd first_pass)) ''a'' = Some (Cbs [3])
   \<and> vm_events (snd (snd (updateComponentListeners True [(''a'', Null)] (Some (fst first_pass))
       (snd (snd first_pass))))) ''a'' = Some (Cbs [])"
  by (simp add: first_pass_eval calls_of_def updateComponentListeners_def updateListeners_def
        on_entry_undef lookupv_def isUndef_def normalizeEvent_a events_host_def remove_def
        vm_off_def off_one_def truthy_def off_match_def Let_def)

lemma lookupv_append_absent:
  "k \<notin> fst ` set pre \<Longrightarrow> lookupv (pre @ (k, cur) # post) k = cur"
  by (simp add: lookupv_def map_of_eq_None_iff [THEN iffD2] map_add_def)

text \<open>
  Claim C1, amended. A new-map entry whose value is \<^verbatim>\<open>undefined\<close> or \<^verbatim>\<open>null\<close> is skipped by
  the first loop: its processing makes no add and no remove call, leaves the entry and
  the state as they are, and reports the invalid handler through \<^verbatim>\<open>warn\<close> unless the build
  is a production build; the entries before and after it are processed as they would
  be without it. The second loop tests \<^verbatim>\<open>isUndef(on[name])\<close>, so the name counts as absent
  from the new map: when the old map has the name, the pass issues
  \<^verbatim>\<open>remove(normalized name, old handler, capture)\<close> for it.
\<close>

theorem undefined_entry_skipped_and_absent:
  "isUndef cur \<longrightarrow>
     on_entry production H oldOn vm k cur s =
       (cur, (if production then []
              else [Warn (invalid_handler (ev_name (normalizeEvent k)) cur) vm]), s)
     \<and> loop_on production H oldOn vm (pre @ (k, cur) # post) s =
       (case loop_on production H oldOn vm pre s of (pre1, c1, s1) \<Rightarrow>
        case loop_on production H oldOn vm post s1 of (post1, c2, s2) \<Rightarrow>
          (pre1 @ (k, cur) # post1,
           c1 @ (if production then []
                 else [Warn (invalid_handler (ev_name (normalizeEvent k)) cur) vm]) @ c2,
           s2))
     \<and> (k \<notin> fst ` set pre \<and> (k, old) \<in> set oldOn \<longrightarrow>
          Remove (ev_name (normalizeEvent k)) old (ev_capture (normalizeEvent k))
            \<in> set (calls_of (updateListeners production H (pre @ (k, cur) # post) oldOn vm s)))"
proof (intro impI conjI)
  assume u: "isUndef cur"
  show "on_entry production H oldOn vm k cur s =
       (cur, (if production then []
              else [Warn (invalid_handler (ev_name (normalizeEvent k)) cur) vm]), s)"
    using u by (rule on_entry_undef)
  show "loop_on production H oldOn vm (pre @ (k, cur) # post) s =
       (case loop_on production H oldOn vm pre s of (pre1, c1, s1) \<Rightarrow>
        case loop_on production H oldOn vm post s1 of (post1, c2, s2) \<Rightarrow>
          (pre1 @ (k, cur) # post1,
           c1 @ (if production then []
                 else [Warn (invalid_handler (ev_name (normalizeEvent k)) cur) vm]) @ c2,
           s2))"
    using u by (simp add: loop_on_append on_entry_undef split: prod.splits)
  show "Remove (ev_name (normalizeEvent k)) old (ev_capture (normalizeEvent k))
            \<in> set (calls_of (updateListeners production H (pre @ (k, cur) # post) oldOn vm s))"
    if "k \<notin> fst ` set pre \<and> (k, old) \<in> set oldOn"
  proof -
    from that u have "isUndef (lookupv (pre @ (k, cur) # post) k)"
      by (simp add: lookupv_append_absent)
    with that have "(k, old) \<in> set (filter (\<lambda>(k', old). isUndef (lookupv (pre @ (k, cur) # post) k')) oldOn)"
      by simp
    then have "Remove (ev_name (normalizeEvent k)) old (ev_capture (normalizeEvent k))
        \<in> (\<lambda>(k, old). Remove (ev_name (normalizeEvent k)) old (ev_capture (normalizeEvent k)))
             ` set (filter (\<lambda>(k', old). isUndef (lookupv (pre @ (k, cur) # post) k')) oldOn)"
      by force
    then show ?thesis
      by (simp add: updateListeners_calls)
  qed
qed

theorem undefined_entry_skipped_and_absent_witness:
  "isUndef Null
   \<and> on_entry False events_host [(''a'', Ref 0)] Vm ''a'' Null example_state =
       (Null, [Warn (invalid_handler ''a'' Null) Vm], example_state)
   \<and> ''a'' \<notin> fst ` set ([] :: decls) \<and> (''a'', Ref 0) \<in> set [(''a'', Ref 0)]
   \<and> Remove ''a'' (Ref 0) False
        \<in> set (calls_of (updateListeners False events_host [(''a'', Null)] [(''a'', Ref 0)] Vm example_state))"
  using undefined_entry_skipped_and_absent
          [of Null False events_host "[(''a'', Ref 0)]" Vm "''a''" example_state "[]" "[]" "Ref 0"]
  by (simp add: isUndef_def normalizeEvent_a)

section \<open>Function calls: user callbacks and once-wrappers\<close>

subsection \<open>Heap extension\<close>

lemma extends_refl: "extends h h"
  by (simp add: extends_def)

lemma extends_trans: "extends h h' \<Longrightarrow> extends h' h'' \<Longrightarrow> extends h h''"
  by (metis extends_def append_take_drop_id take_all_iff take_append nat_le_linear take_take min.absorb1 length_take min.cobounded2)

lemma extends_append: "extends h (h @ ext)"
  by (simp add: extends_def)

lemma extends_length: "extends h h' \<Longrightarrow> length h \<le> length h'"
  by (metis extends_def length_take min.cobounded1)

lemma extends_nth: "extends h h' \<Longrightarrow> i < length h \<Longrightarrow> h' ! i = h ! i"
  by (metis extends_def nth_take)

lemma is_user_extends: "extends h h' \<Longrightarrow> is_user h f \<Longrightarrow> is_user h' f"
  using extends_length [of h h'] by (auto simp: is_user_def extends_nth)

lemma user_outcome_extends: "extends h h' \<Longrightarrow> is_user h f \<Longrightarrow> user_outcome h' f = user_outcome h f"
  by (simp add: is_user_def user_outcome_def extends_nth)

lemma user_actions_extends: "extends h h' \<Longrightarrow> is_user h f \<Longrightarrow> user_actions h' f = user_actions h f"
  by (simp add: is_user_def user_actions_def extends_nth)

lemma is_once_wrapper_extends: "extends h h' \<Longrightarrow> is_once_wrapper h x \<Longrightarrow> is_once_wrapper h' x"
  using extends_length [of h h']
  by (auto simp: is_once_wrapper_def extends_nth is_user_extends split: kind.splits)

lemma target_extends: "extends h h' \<Longrightarrow> x < length h \<Longrightarrow> target h' x = target h x"
  by (simp add: target_def extends_nth)

subsection \<open>Bus operations leave the trace and the old objects alone\<close>

lemma on_one_frame [simp]: "heap (on_one e f s) = heap s" "trace (on_one e f s) = trace s"
  by (simp_all add: on_one_def Let_def)

lemma fold_on_one_frame [simp]:
  "heap (fold (\<lambda>e. on_one e f) es s) = heap s" "trace (fold (\<lambda>e. on_one e f) es s) = trace s"
  by (induction es arbitrary: s) simp_all

lemma vm_on_frame [simp]: "heap (vm_on ev f s) = heap s" "trace (vm_on ev f s) = trace s"
  by (cases ev; simp add: vm_on_def)+

lemma off_one_frame [simp]: "heap (off_one e fn s) = heap s" "trace (off_one e fn s) = trace s"
  by (simp_all add: off_one_def split: option.splits entry.splits)

lemma fold_off_one_frame [simp]:
  "heap (fold (\<lambda>e. off_one e fn) es s) = heap s" "trace (fold (\<lambda>e. off_one e fn) es s) = trace s"
  by (induction es arbitrary: s) simp_all

lemma vm_off_frame [simp]: "heap (vm_off a s) = heap s" "trace (vm_off a s) = trace s"
proof -
  show "heap (vm_off a s) = heap s"
  proof (cases a)
    case OffAll then show ?thesis by (simp add: vm_off_def)
  next
    case (Off ev fn) then show ?thesis by (cases ev) (simp_all add: vm_off_def)
  qed
  show "trace (vm_off a s) = trace s"
  proof (cases a)
    case OffAll then show ?thesis by (simp add: vm_off_def)
  next
    case (Off ev fn) then show ?thesis by (cases ev) (simp_all add: vm_off_def)
  qed
qed

lemma vm_once_trace [simp]: "trace (vm_once e f s) = trace s"
  by (simp add: vm_once_def alloc_def)

lemma vm_once_heap:
  "heap (vm_once e f s) = heap s @ [\<lparr>obj_kind = OnceOn e f, prop_fns = Undefined, prop_fn = Ref f\<rparr>]"
  by (simp add: vm_once_def alloc_def)

lemma run_action_trace [simp]: "trace (run_action a s) = trace s"
  by (cases a) simp_all

lemma run_action_extends: "extends (heap s) (heap (run_action a s))"
  by (cases a) (simp_all add: extends_refl vm_once_heap extends_append)

lemma run_actions_trace [simp]: "trace (run_actions acts s) = trace s"
  unfolding run_actions_def by (induction acts arbitrary: s) simp_all

lemma run_actions_extends: "extends (heap s) (heap (run_actions acts s))"
  unfolding run_actions_def
proof (induction acts arbitrary: s)
  case Nil
  then show ?case by (simp add: extends_refl)
next
  case (Cons a acts)
  have "extends (heap s) (heap (run_action a s))" by (rule run_action_extends)
  moreover have "extends (heap (run_action a s)) (heap (fold run_action acts (run_action a s)))"
    by (rule Cons.IH)
  ultimately show ?case by (simp add: extends_trans)
qed

subsection \<open>Calling a user callback and a once-wrapper\<close>

lemma call_user:
  assumes "is_user (heap s) f"
  shows "call (Suc n) f this args s =
           Some (user_outcome (heap s) f,
                 run_actions (user_actions (heap s) f) (s\<lparr>trace := trace s @ [Called f this args]\<rparr>))"
  using assms
  by (auto simp: call_body_def is_user_def user_outcome_def user_actions_def split: kind.splits)

lemma call_once_wrapper:
  assumes "x < length (heap s)" and "obj_kind (heap s ! x) = OnceOn e f" and "is_user (heap s) f"
  shows "call (Suc (Suc n)) x this args s =
           Some ((case user_outcome (heap s) f of Return r \<Rightarrow> Return Undefined | Throw z \<Rightarrow> Throw z),
                 run_actions (user_actions (heap s) f)
                   ((vm_off (Off (Name e) (Ref x)) s)\<lparr>trace := trace s @ [Called f Vm args]\<rparr>))"
proof -
  let ?s1 = "vm_off (Off (Name e) (Ref x)) s"
  have u: "is_user (heap ?s1) f" using assms(3) by simp
  have "call (Suc (Suc n)) x this args s = once_on (call (Suc n)) x e f args s"
    using assms(1,2) by (simp add: call_body_def)
  also have "\<dots> = Some ((case user_outcome (heap s) f of Return r \<Rightarrow> Return Undefined | Throw z \<Rightarrow> Throw z),
                 run_actions (user_actions (heap s) f) (?s1\<lparr>trace := trace s @ [Called f Vm args]\<rparr>))"
    unfolding once_on_def Let_def call_user [OF u]
    by (simp split: outcome.splits)
  finally show ?thesis .
qed


lemma isArray_user: "is_user h f \<Longrightarrow> \<not> isArray h (Ref f)"
  by (auto simp: isArray_def is_user_def split: kind.splits)

lemma iweh_user:
  assumes "is_user (heap s) f"
  shows "\<exists>r s'. invokeWithErrorHandling (call (Suc n)) (Ref f) this args vm info s = Some (r, s')
           \<and> r = (case user_outcome (heap s) f of Return v \<Rightarrow> v | Throw z \<Rightarrow> Undefined)
           \<and> trace s' = trace s @ invocation (heap s) f this args vm info
           \<and> extends (heap s) (heap s')"
proof -
  let ?s1 = "run_actions (user_actions (heap s) f) (s\<lparr>trace := trace s @ [Called f this args]\<rparr>)"
  have e: "extends (heap s) (heap ?s1)"
    using run_actions_extends [of "s\<lparr>trace := trace s @ [Called f this args]\<rparr>"] by simp
  show ?thesis
  proof (cases "user_outcome (heap s) f")
    case (Return v)
    then show ?thesis
      using e by (simp add: invokeWithErrorHandling_def apply_val_def call_user [OF assms] invocation_def
            del: call.simps)
  next
    case (Throw z)
    then show ?thesis
      using e by (simp add: invokeWithErrorHandling_def apply_val_def call_user [OF assms] invocation_def
            del: call.simps)
  qed
qed

lemma iweh_once_wrapper:
  assumes "is_once_wrapper (heap s) x"
  shows "\<exists>r s'. invokeWithErrorHandling (call (Suc (Suc n))) (Ref x) this args vm info s = Some (r, s')
           \<and> trace s' = trace s @ invocation (heap s) (target (heap s) x) Vm args vm info
           \<and> extends (heap s) (heap s')"
proof -
  from assms obtain e f where x: "x < length (heap s)" "obj_kind (heap s ! x) = OnceOn e f"
    and u: "is_user (heap s) f"
    by (auto simp: is_once_wrapper_def split: kind.splits)
  have t: "target (heap s) x = f" using x by (simp add: target_def)
  let ?s0 = "(vm_off (Off (Name e) (Ref x)) s)\<lparr>trace := trace s @ [Called f Vm args]\<rparr>"
  let ?s1 = "run_actions (user_actions (heap s) f) ?s0"
  have e: "extends (heap s) (heap ?s1)"
    using run_actions_extends [of ?s0] by simp
  show ?thesis
  proof (cases "user_outcome (heap s) f")
    case (Return v)
    then show ?thesis
      using e by (simp add: invokeWithErrorHandling_def apply_val_def
            call_once_wrapper [OF x u] invocation_def t del: call.simps)
  next
    case (Throw z)
    then show ?thesis
      using e by (simp add: invokeWithErrorHandling_def apply_val_def
            call_once_wrapper [OF x u] invocation_def t del: call.simps)
  qed
qed

lemma target_user: "is_user h f \<Longrightarrow> target h f = f"
  by (auto simp: target_def is_user_def split: kind.splits)

lemma invocation_extends:
  "extends h h' \<Longrightarrow> is_user h f \<Longrightarrow> invocation h' f this args vm info = invocation h f this args vm info"
  by (simp add: invocation_def user_outcome_extends)

lemma invoke_each_users:
  assumes "\<forall>f\<in>set fs. is_user (heap s) f"
  shows "\<exists>s'. invoke_each (call (Suc n)) fs this args vm info s = Some s'
           \<and> trace s' = trace s @ concat (map (\<lambda>f. invocation (heap s) f this args vm info) fs)
           \<and> extends (heap s) (heap s')"
  using assms
proof (induction fs arbitrary: s)
  case Nil
  then show ?case by (simp add: extends_refl)
next
  case (Cons f fs)
  from Cons.prems have u: "is_user (heap s) f" by simp
  from iweh_user [OF u, of n this args vm info]
  obtain r s1 where 1: "invokeWithErrorHandling (call (Suc n)) (Ref f) this args vm info s = Some (r, s1)"
    and 2: "trace s1 = trace s @ invocation (heap s) f this args vm info"
    and 3: "extends (heap s) (heap s1)"
    by (elim exE conjE)
  from Cons.prems 3 have us: "\<forall>g\<in>set fs. is_user (heap s1) g"
    by (simp add: is_user_extends)
  from Cons.IH [OF us]
  obtain s' where 4: "invoke_each (call (Suc n)) fs this args vm info s1 = Some s'"
    and 5: "trace s' = trace s1 @ concat (map (\<lambda>f. invocation (heap s1) f this args vm info) fs)"
    and 6: "extends (heap s1) (heap s')"
    by (elim exE conjE)
  have 7: "map (\<lambda>f. invocation (heap s1) f this args vm info) fs
         = map (\<lambda>f. invocation (heap s) f this args vm info) fs"
    using Cons.prems 3 by (simp add: invocation_extends)
  show ?case
    using 1 2 4 5 7 extends_trans [OF 3 6] by simp
qed


lemma subscriber_extends: "extends h h' \<Longrightarrow> subscriber h x \<Longrightarrow> subscriber h' x"
  by (auto simp: subscriber_def is_user_extends is_once_wrapper_extends)

lemma subscriber_length: "subscriber h x \<Longrightarrow> x < length h"
  by (auto simp: subscriber_def is_user_def is_once_wrapper_def)

lemma subscriber_target: "subscriber h x \<Longrightarrow> is_user h (target h x)"
proof (cases "is_user h x")
  case True
  then show ?thesis by (simp add: target_user)
next
  case False
  assume "subscriber h x"
  with False have "is_once_wrapper h x" by (simp add: subscriber_def)
  then show ?thesis by (auto simp: is_once_wrapper_def target_def split: kind.splits)
qed

lemma iweh_subscriber:
  assumes "subscriber (heap s) x"
  shows "\<exists>r s'. invokeWithErrorHandling (call (Suc (Suc n))) (Ref x) Vm args vm info s = Some (r, s')
           \<and> trace s' = trace s @ invocation (heap s) (target (heap s) x) Vm args vm info
           \<and> extends (heap s) (heap s')"
proof (cases "is_user (heap s) x")
  case True
  from iweh_user [OF True, of "Suc n" Vm args vm info] show ?thesis
    by (auto simp: target_user [OF True])
next
  case False
  with assms have "is_once_wrapper (heap s) x" by (simp add: subscriber_def)
  then show ?thesis by (rule iweh_once_wrapper)
qed

lemma invoke_each_subscribers:
  assumes "\<forall>x\<in>set xs. subscriber (heap s) x"
  shows "\<exists>s'. invoke_each (call (Suc (Suc n))) xs Vm args vm info s = Some s'
           \<and> trace s' = trace s
                @ concat (map (\<lambda>x. invocation (heap s) (target (heap s) x) Vm args vm info) xs)
           \<and> extends (heap s) (heap s')"
  using assms
proof (induction xs arbitrary: s)
  case Nil
  then show ?case by (simp add: extends_refl)
next
  case (Cons x xs)
  from Cons.prems have u: "subscriber (heap s) x" by simp
  from iweh_subscriber [OF u, of n args vm info]
  obtain r s1 where 1: "invokeWithErrorHandling (call (Suc (Suc n))) (Ref x) Vm args vm info s = Some (r, s1)"
    and 2: "trace s1 = trace s @ invocation (heap s) (target (heap s) x) Vm args vm info"
    and 3: "extends (heap s) (heap s1)"
    by (elim exE conjE)
  from Cons.prems 3 have us: "\<forall>y\<in>set xs. subscriber (heap s1) y"
    by (simp add: subscriber_extends)
  from Cons.IH [OF us]
  obtain s' where 4: "invoke_each (call (Suc (Suc n))) xs Vm args vm info s1 = Some s'"
    and 5: "trace s' = trace s1
              @ concat (map (\<lambda>x. invocation (heap s1) (target (heap s1) x) Vm args vm info) xs)"
    and 6: "extends (heap s1) (heap s')"
    by (elim exE conjE)
  have 7: "map (\<lambda>x. invocation (heap s1) (target (heap s1) x) Vm args vm info) xs
         = map (\<lambda>x. invocation (heap s) (target (heap s) x) Vm args vm info) xs"
    using Cons.prems 3
    by (simp add: invocation_extends target_extends subscriber_length subscriber_target)
  show ?case
    using 1 2 4 5 7 extends_trans [OF 3 6] by simp
qed

lemma emit_tip_frame [simp]:
  "heap (emit_tip production e s) = heap s"
  "vm_events (emit_tip production e s) = vm_events s"
  "vm_hasHookEvent (emit_tip production e s) = vm_hasHookEvent s"
  by (simp_all add: emit_tip_def Let_def)

lemma emit_tip_calls [simp]:
  "filter is_Called (trace (emit_tip production e s)) = filter is_Called (trace s)"
  by (simp add: emit_tip_def Let_def)

lemma emit_tip_production [simp]: "emit_tip True e s = s"
  by (simp add: emit_tip_def)

lemma calls_invocation [simp]:
  "filter is_Called (invocation h f this args vm info) = [Called f this args]"
  by (simp add: invocation_def split: outcome.splits)

lemma calls_concat_invocations:
  "filter is_Called (concat (map (\<lambda>x. invocation h (g x) this args vm info) xs))
     = map (\<lambda>x. Called (g x) this args) xs"
  by (induction xs) simp_all

lemma emit_subscribers:
  assumes "vm_events s e = Some (Cbs cbs)" and "\<forall>x\<in>set cbs. subscriber (heap s) x"
  shows "\<exists>s'. vm_emit (Suc (Suc n)) production e args s = Some s'
           \<and> trace s' = trace (emit_tip production e s)
                @ concat (map (\<lambda>x. invocation (heap s) (target (heap s) x) Vm args Vm (emit_info e)) cbs)
           \<and> extends (heap s) (heap s')"
proof -
  let ?s0 = "emit_tip production e s"
  have a: "\<forall>x\<in>set cbs. subscriber (heap ?s0) x" using assms(2) by simp
  from invoke_each_subscribers [OF a, of n args Vm "emit_info e"]
  show ?thesis
    using assms(1) by (simp add: vm_emit_def toArray_def Let_def)
qed

lemma emit_no_sequence:
  assumes "vm_events s e = None \<or> vm_events s e = Some Cleared"
  shows "vm_emit fuel production e args s = Some (emit_tip production e s)"
  using assms by (auto simp: vm_emit_def Let_def)

section \<open>The bus implements the subscriptions of the specification\<close>

subsection \<open>The reverse scan removes the last match\<close>

lemma remove_first_none: "\<forall>x\<in>set xs. \<not> P x \<Longrightarrow> remove_first P xs = xs"
  by (induction xs) simp_all

lemma remove_first_split:
  "\<forall>x\<in>set pre. \<not> P x \<Longrightarrow> P x \<Longrightarrow> remove_first P (pre @ x # post) = pre @ post"
  by (induction pre) simp_all

lemma remove_last_none: "\<forall>x\<in>set xs. \<not> P x \<Longrightarrow> remove_last P xs = xs"
  by (simp add: remove_last_def remove_first_none)

lemma remove_last_split:
  "\<forall>x\<in>set post. \<not> P x \<Longrightarrow> P x \<Longrightarrow> remove_last P (pre @ x # post) = pre @ post"
  using remove_first_split [of "rev post" P x "rev pre"]
  by (simp add: remove_last_def)

lemma off_scan_remove_last:
  "off_scan h cbs (length cbs) fn = remove_last (off_match h fn) cbs"
proof (cases "\<exists>x\<in>set cbs. off_match h fn x")
  case True
  then obtain pre x post where s: "cbs = pre @ x # post" and x: "off_match h fn x"
    and p: "\<forall>y\<in>set post. \<not> off_match h fn y"
    using split_list_last_prop [of cbs "off_match h fn"] by blast
  show ?thesis
    unfolding s using off_scan_split [OF x p, of pre] remove_last_split [OF p x, of pre]
    by simp
next
  case False
  then show ?thesis by (simp add: off_scan_none remove_last_none)
qed

lemma list_all2_remove_first:
  assumes "list_all2 R xs ys" and "\<And>x y. R x y \<Longrightarrow> P x = Q y"
  shows "list_all2 R (remove_first P xs) (remove_first Q ys)"
  using assms(1)
proof (induction rule: list_all2_induct)
  case Nil
  then show ?case by simp
next
  case (Cons x xs y ys)
  then show ?case using assms(2) [of x y] by auto
qed

lemma list_all2_remove_last:
  assumes "list_all2 R xs ys" and "\<And>x y. R x y \<Longrightarrow> P x = Q y"
  shows "list_all2 R (remove_last P xs) (remove_last Q ys)"
  unfolding remove_last_def
  using list_all2_remove_first [of R "rev xs" "rev ys" P Q] assms
  by (simp add: list_all2_rev)

subsection \<open>The bus implements the subscriptions\<close>

lemma stands_for_extends:
  "extends h h' \<Longrightarrow> stands_for h0 h x y \<Longrightarrow> stands_for h0 h' x y"
  using extends_length [of h h']
  by (auto simp: stands_for_def extends_nth split: if_splits)

lemma list_all2_stands_for_extends:
  "extends h h' \<Longrightarrow> list_all2 (stands_for h0 h) xs ys \<Longrightarrow> list_all2 (stands_for h0 h') xs ys"
  by (erule list_all2_mono) (simp add: stands_for_extends)

lemma stands_for_match:
  assumes "stands_for h0 h x y" and "extends h0 h" and "g < length h0"
  shows "off_match h (Ref g) x = (Ref (fst y) = Ref g)"
proof (cases "snd y")
  case True
  with assms show ?thesis
    by (auto simp: stands_for_def off_match_def get_fn_def)
next
  case False
  with assms have x: "x = fst y" and p: "plain_user h0 x" by (simp_all add: stands_for_def)
  from p have "x < length h0" by (simp add: plain_user_def is_user_def)
  with assms(2) p have "get_fn h x = Undefined"
    using extends_length [of h0 h] by (simp add: get_fn_def extends_nth plain_user_def)
  then show ?thesis using x by (auto simp: off_match_def)
qed


lemma entry_cbs_on_one:
  "entry_cbs (vm_events (on_one e f s) e') =
     (if e' = e then entry_cbs (vm_events s e) @ [f] else entry_cbs (vm_events s e'))"
  by (simp add: on_one_def entry_cbs_def Let_def)

lemma entry_cbs_off_one:
  "entry_cbs (vm_events (off_one e fn s) e') =
     (if e' = e
      then (if truthy fn then remove_last (off_match (heap s) fn) (entry_cbs (vm_events s e)) else [])
      else entry_cbs (vm_events s e'))"
  by (simp add: off_one_def entry_cbs_def off_scan_remove_last remove_last_def
           split: option.splits entry.splits)

lemma bus_rel_on_one:
  assumes "bus_rel h0 s S" and "plain_user h0 f"
  shows "bus_rel h0 (on_one e f s) (subscribe1 e (f, False) S)"
proof -
  have sf: "stands_for h0 (heap s) f (f, False)" using assms(2) by (simp add: stands_for_def)
  show ?thesis
    using assms(1) sf
    by (simp add: bus_rel_def entry_cbs_on_one subscribe1_def list_all2_appendI)
qed

lemma bus_rel_fold_on_one:
  assumes "bus_rel h0 s S" and "plain_user h0 f"
  shows "bus_rel h0 (fold (\<lambda>e. on_one e f) es s) (fold (\<lambda>e. subscribe1 e (f, False)) es S)"
  using assms by (induction es arbitrary: s S) (simp_all add: bus_rel_on_one)

lemma bus_rel_once:
  assumes "bus_rel h0 s S" and "plain_user h0 f"
  shows "bus_rel h0 (vm_once e f s) (subscribe1 e (f, True) S)"
proof -
  let ?w = "\<lparr>obj_kind = OnceOn e f, prop_fns = Undefined, prop_fn = Ref f\<rparr>"
  let ?s1 = "s\<lparr>heap := heap s @ [?w]\<rparr>"
  let ?x = "length (heap s)"
  from assms(1) have e0: "extends h0 (heap s)" by (simp add: bus_rel_def)
  have ex: "extends (heap s) (heap ?s1)" by (simp add: extends_append)
  have e1: "extends h0 (heap ?s1)" using e0 ex by (rule extends_trans)
  have sf: "stands_for h0 (heap ?s1) ?x (f, True)"
    using assms(2) extends_length [OF e0] by (simp add: stands_for_def)
  have old: "\<And>e'. list_all2 (stands_for h0 (heap ?s1)) (entry_cbs (vm_events ?s1 e')) (S e')"
  proof -
    fix e'
    from assms(1) have "list_all2 (stands_for h0 (heap s)) (entry_cbs (vm_events s e')) (S e')"
      by (simp add: bus_rel_def)
    then have "list_all2 (stands_for h0 (heap ?s1)) (entry_cbs (vm_events s e')) (S e')"
      using ex by (rule list_all2_stands_for_extends [rotated])
    then show "list_all2 (stands_for h0 (heap ?s1)) (entry_cbs (vm_events ?s1 e')) (S e')"
      by simp
  qed
  have v: "vm_once e f s = on_one e ?x ?s1"
    by (simp add: vm_once_def alloc_def vm_on_def)
  show ?thesis
    unfolding v bus_rel_def
    using e1 sf old by (simp add: entry_cbs_on_one subscribe1_def list_all2_appendI)
qed

lemma bus_rel_off_one:
  assumes "bus_rel h0 s S" and "case fn of Ref g \<Rightarrow> g < length h0 | _ \<Rightarrow> True"
  shows "bus_rel h0 (off_one e fn s) (unsubscribe1 e fn S)"
proof (cases "truthy fn")
  case False
  then show ?thesis
    using assms(1) by (simp add: bus_rel_def entry_cbs_off_one unsubscribe1_def)
next
  case True
  then obtain g where g: "fn = Ref g" by (cases fn) (simp_all add: truthy_def)
  with assms(2) have gl: "g < length h0" by simp
  from assms(1) have e0: "extends h0 (heap s)"
    and l: "list_all2 (stands_for h0 (heap s)) (entry_cbs (vm_events s e)) (S e)"
    by (simp_all add: bus_rel_def)
  have "list_all2 (stands_for h0 (heap s))
          (remove_last (off_match (heap s) (Ref g)) (entry_cbs (vm_events s e)))
          (remove_last (\<lambda>y. Ref (fst y) = Ref g) (S e))"
    using l by (rule list_all2_remove_last) (rule stands_for_match [OF _ e0 gl])
  then show ?thesis
    using assms(1) True g
    by (simp add: bus_rel_def entry_cbs_off_one unsubscribe1_def)
qed

lemma bus_rel_fold_off_one:
  assumes "bus_rel h0 s S" and "case fn of Ref g \<Rightarrow> g < length h0 | _ \<Rightarrow> True"
  shows "bus_rel h0 (fold (\<lambda>e. off_one e fn) es s) (fold (\<lambda>e. unsubscribe1 e fn) es S)"
  using assms by (induction es arbitrary: s S) (simp_all add: bus_rel_off_one)

lemma bus_rel_step:
  assumes "bus_rel h0 s S" and "op_ok h0 a"
  shows "bus_rel h0 (run_action a s) (spec_step a S)"
proof (cases a)
  case (DoOn ev f)
  with assms show ?thesis
    by (cases ev) (simp_all add: vm_on_def bus_rel_on_one bus_rel_fold_on_one)
next
  case (DoOnce e f)
  with assms show ?thesis by (simp add: bus_rel_once)
next
  case (DoOff oa)
  show ?thesis
  proof (cases oa)
    case OffAll
    with DoOff assms show ?thesis by (simp add: vm_off_def bus_rel_def entry_cbs_def)
  next
    case (Off ev fn)
    with DoOff assms show ?thesis
      by (cases ev) (simp_all add: vm_off_def bus_rel_off_one bus_rel_fold_off_one)
  qed
qed

lemma bus_rel_run:
  assumes "bus_rel h0 s S" and "\<forall>a\<in>set ops. op_ok h0 a"
  shows "bus_rel h0 (fold run_action ops s) (fold spec_step ops S)"
  using assms by (induction ops arbitrary: s S) (simp_all add: bus_rel_step)

lemma bus_rel_init:
  assumes "vm_events s = Map.empty"
  shows "bus_rel (heap s) s (\<lambda>e. [])"
  using assms by (simp add: bus_rel_def extends_refl entry_cbs_def)

lemma stands_for_subscriber:
  assumes "stands_for h0 h x y" and "extends h0 h"
  shows "subscriber h x \<and> target h x = fst y"
proof -
  from assms(1) have p: "plain_user h0 (fst y)" by (simp add: stands_for_def)
  then have u: "is_user h (fst y)"
    using assms(2) by (simp add: plain_user_def is_user_extends)
  show ?thesis
  proof (cases "snd y")
    case True
    with assms(1) u show ?thesis
      by (auto simp: stands_for_def subscriber_def is_once_wrapper_def target_def split: kind.splits)
  next
    case False
    with assms(1) u show ?thesis
      by (simp add: stands_for_def subscriber_def target_user)
  qed
qed

lemma list_all2_stands_for_targets:
  assumes "list_all2 (stands_for h0 h) xs ys" and "extends h0 h"
  shows "(\<forall>x\<in>set xs. subscriber h x) \<and> map (target h) xs = map fst ys"
  using assms(1)
proof (induction rule: list_all2_induct)
  case Nil
  then show ?case by simp
next
  case (Cons x xs y ys)
  then show ?case using stands_for_subscriber [OF _ assms(2), of x y] by simp
qed

section \<open>Emission\<close>

text \<open>
  Claim C4. Start from an empty bus and run any sequence of subscribe, subscribe-once and
  unsubscribe operations on plain user callbacks. Then \<^verbatim>\<open>$emit(name, ...args)\<close> with fuel
  two or more returns, and the user callbacks it enters are exactly the callbacks
  currently subscribed for the name as the specification counts them, in subscription
  order, each once, on the instance and with the given arguments. More generally, for
  any state whose array for the name holds user callbacks or once-wrappers of them, the
  callbacks entered are exactly those of the array found at the start, whatever the
  callbacks subscribe or unsubscribe while the emission runs. When the name has no
  array (absent or cleared), the emission invokes nothing and leaves heap and bus as
  they are (a development build may issue its case tip).
\<close>

theorem emit_invokes_current_subscribers:
  "(vm_events s0 = Map.empty \<and> (\<forall>a\<in>set ops. op_ok (heap s0) a) \<longrightarrow>
      (\<exists>s'. vm_emit (Suc (Suc n)) production e args (run_actions ops s0) = Some s'
            \<and> filter is_Called (trace s') =
                filter is_Called (trace s0) @ map (\<lambda>y. Called (fst y) Vm args) (subscribed ops e)))
   \<and> (vm_events s e = Some (Cbs cbs) \<and> (\<forall>x\<in>set cbs. subscriber (heap s) x) \<longrightarrow>
      (\<exists>s'. vm_emit (Suc (Suc n)) production e args s = Some s'
            \<and> filter is_Called (trace s') =
                filter is_Called (trace s) @ map (\<lambda>x. Called (target (heap s) x) Vm args) cbs))
   \<and> ((vm_events s e = None \<or> vm_events s e = Some Cleared) \<longrightarrow>
        vm_emit fuel production e args s = Some (emit_tip production e s))"
proof (intro conjI impI)
  assume "vm_events s e = None \<or> vm_events s e = Some Cleared"
  then show "vm_emit fuel production e args s = Some (emit_tip production e s)"
    by (rule emit_no_sequence)
next
  assume a: "vm_events s e = Some (Cbs cbs) \<and> (\<forall>x\<in>set cbs. subscriber (heap s) x)"
  then have a1: "vm_events s e = Some (Cbs cbs)" and a2: "\<forall>x\<in>set cbs. subscriber (heap s) x"
    by simp_all
  from emit_subscribers [OF a1 a2, of n production args]
  obtain s' where 1: "vm_emit (Suc (Suc n)) production e args s = Some s'"
    and 2: "trace s' = trace (emit_tip production e s)
                @ concat (map (\<lambda>x. invocation (heap s) (target (heap s) x) Vm args Vm (emit_info e)) cbs)"
    by (elim exE conjE)
  from 2 have "filter is_Called (trace s') =
                filter is_Called (trace s) @ map (\<lambda>x. Called (target (heap s) x) Vm args) cbs"
    by (simp add: calls_concat_invocations)
  with 1 show "\<exists>s'. vm_emit (Suc (Suc n)) production e args s = Some s'
            \<and> filter is_Called (trace s') =
                filter is_Called (trace s) @ map (\<lambda>x. Called (target (heap s) x) Vm args) cbs"
    by simp
next
  assume a: "vm_events s0 = Map.empty \<and> (\<forall>a\<in>set ops. op_ok (heap s0) a)"
  let ?s = "run_actions ops s0"
  let ?S = "subscribed ops"
  have r: "bus_rel (heap s0) ?s ?S"
    unfolding run_actions_def subscribed_def
    using a by (intro bus_rel_run bus_rel_init) simp_all
  then have ex: "extends (heap s0) (heap ?s)"
    and l: "list_all2 (stands_for (heap s0) (heap ?s)) (entry_cbs (vm_events ?s e)) (?S e)"
    by (simp_all add: bus_rel_def)
  from list_all2_stands_for_targets [OF l ex]
  have sub: "\<forall>x\<in>set (entry_cbs (vm_events ?s e)). subscriber (heap ?s) x"
    and tg: "map (target (heap ?s)) (entry_cbs (vm_events ?s e)) = map fst (?S e)"
    by simp_all
  have tr: "filter is_Called (trace ?s) = filter is_Called (trace s0)" by simp
  show "\<exists>s'. vm_emit (Suc (Suc n)) production e args ?s = Some s'
            \<and> filter is_Called (trace s') =
                filter is_Called (trace s0) @ map (\<lambda>y. Called (fst y) Vm args) (?S e)"
  proof (cases "\<exists>cbs. vm_events ?s e = Some (Cbs cbs)")
    case True
    then obtain cbs where c: "vm_events ?s e = Some (Cbs cbs)" ..
    then have ec: "entry_cbs (vm_events ?s e) = cbs" by (simp add: entry_cbs_def)
    from sub ec have sub': "\<forall>x\<in>set cbs. subscriber (heap ?s) x" by simp
    from emit_subscribers [OF c sub', of n production args]
    obtain s' where 1: "vm_emit (Suc (Suc n)) production e args ?s = Some s'"
      and 2: "trace s' = trace (emit_tip production e ?s)
                @ concat (map (\<lambda>x. invocation (heap ?s) (target (heap ?s) x) Vm args Vm (emit_info e)) cbs)"
      by (elim exE conjE)
    have "map (\<lambda>x. Called (target (heap ?s) x) Vm args) cbs
            = map (\<lambda>y. Called y Vm args) (map (target (heap ?s)) cbs)"
      by simp
    also have "\<dots> = map (\<lambda>y. Called (fst y) Vm args) (?S e)"
      using tg ec by (simp del: map_map add: map_map [symmetric, where f = "\<lambda>y. Called y Vm args" and g = fst, unfolded comp_def])
    finally have 3: "map (\<lambda>x. Called (target (heap ?s) x) Vm args) cbs
            = map (\<lambda>y. Called (fst y) Vm args) (?S e)" .
    from 2 have "filter is_Called (trace s') =
                filter is_Called (trace s0) @ map (\<lambda>x. Called (target (heap ?s) x) Vm args) cbs"
      by (simp add: calls_concat_invocations)
    with 1 3 show ?thesis by simp
  next
    case False
    then have n: "vm_events ?s e = None \<or> vm_events ?s e = Some Cleared"
      by (cases "vm_events ?s e") (auto intro: entry.exhaust)
    then have "entry_cbs (vm_events ?s e) = []" by (auto simp: entry_cbs_def)
    with l have "?S e = []" by simp
    then show ?thesis
      using emit_no_sequence [OF n, of "Suc (Suc n)" production args] by simp
  qed
qed

theorem emit_invokes_current_subscribers_witness:
  "subscribed emit_ops ''e'' = [(0, False), (1, True), (2, False)]
   \<and> (\<exists>s'. vm_emit (Suc (Suc 0)) True ''e'' [] (run_actions emit_ops emit_state) = Some s'
          \<and> filter is_Called (trace s') = [Called 0 Vm [], Called 1 Vm [], Called 2 Vm []])"
proof -
  have p1: "vm_events emit_state = Map.empty" by (simp add: emit_state_def)
  have p2: "\<forall>a\<in>set emit_ops. op_ok (heap emit_state) a"
    by (simp add: emit_ops_def emit_state_def plain_user_def is_user_def)
  have p3: "subscribed emit_ops ''e'' = [(0, False), (1, True), (2, False)]"
    by (simp add: emit_ops_def subscribed_def subscribe1_def unsubscribe1_def remove_last_def
          truthy_def)
  have p4: "filter is_Called (trace emit_state) = []" by (simp add: emit_state_def)
  from emit_invokes_current_subscribers
         [where ?s0.0 = emit_state and ops = emit_ops and n = 0 and production = True
            and e = "''e''" and args = "[]"]
       p1 p2
  have "\<exists>s'. vm_emit (Suc (Suc 0)) True ''e'' [] (run_actions emit_ops emit_state) = Some s'
            \<and> filter is_Called (trace s') =
                filter is_Called (trace emit_state)
                  @ map (\<lambda>y. Called (fst y) Vm []) (subscribed emit_ops ''e'')"
    by blast
  then show ?thesis by (simp add: p3 p4)
qed

section \<open>Faults stay inside the error boundary\<close>

lemma emit_users:
  assumes "vm_events s e = Some (Cbs cbs)" and "\<forall>f\<in>set cbs. is_user (heap s) f"
  shows "\<exists>s'. vm_emit (Suc n) production e args s = Some s'
           \<and> trace s' = trace (emit_tip production e s)
                @ concat (map (\<lambda>f. invocation (heap s) f Vm args Vm (emit_info e)) cbs)"
proof -
  let ?s0 = "emit_tip production e s"
  have a: "\<forall>f\<in>set cbs. is_user (heap ?s0) f" using assms(2) by simp
  from invoke_each_users [OF a, of n Vm args Vm "emit_info e"]
  show ?thesis
    using assms(1) by (auto simp: vm_emit_def toArray_def Let_def simp del: call.simps)
qed

lemma call_invoker:
  assumes "i < length (heap s)" and "obj_kind (heap s ! i) = Invoker vm"
  shows "call (Suc n) i this args s = invoker (call n) i vm args s"
  using assms by (simp add: call_body_def)

lemma get_fns_self: "i < length (heap s) \<Longrightarrow> get_fns (heap s) (Ref i) = prop_fns (heap s ! i)"
  by (simp add: get_fns_def)

lemma invoker_array:
  assumes "i < length (heap s)" and "obj_kind (heap s ! i) = Invoker vm"
    and "isArray (heap s) (prop_fns (heap s ! i))"
    and "\<forall>f\<in>set (array_elems (heap s) (prop_fns (heap s ! i))). is_user (heap s) f"
  shows "\<exists>s'. call (Suc (Suc n)) i this args s = Some (Return Undefined, s')
           \<and> trace s' = trace s
                @ concat (map (\<lambda>f. invocation (heap s) f NoContext args vm ''v-on handler'')
                            (array_elems (heap s) (prop_fns (heap s ! i))))"
proof -
  from invoke_each_users [OF assms(4), of n NoContext args vm "''v-on handler''"]
  obtain s' where 1: "invoke_each (call (Suc n)) (array_elems (heap s) (prop_fns (heap s ! i)))
                        NoContext args vm ''v-on handler'' s = Some s'"
    and 2: "trace s' = trace s
                @ concat (map (\<lambda>f. invocation (heap s) f NoContext args vm ''v-on handler'')
                            (array_elems (heap s) (prop_fns (heap s ! i))))"
    by (elim exE conjE)
  have "call (Suc (Suc n)) i this args s = Some (Return Undefined, s')"
    unfolding call_invoker [OF assms(1,2)]
    using assms(3) 1
    by (simp add: invoker_def get_fns_self [OF assms(1)] Let_def del: call.simps)
  with 2 show ?thesis by simp
qed

lemma invoker_single:
  assumes "i < length (heap s)" and "obj_kind (heap s ! i) = Invoker vm"
    and "prop_fns (heap s ! i) = Ref f" and "is_user (heap s) f"
  shows "\<exists>s'. call (Suc (Suc n)) i this args s =
                 Some (Return (case user_outcome (heap s) f of Return v \<Rightarrow> v | Throw z \<Rightarrow> Undefined), s')
           \<and> trace s' = trace s @ invocation (heap s) f NoContext args vm ''v-on handler''
           \<and> extends (heap s) (heap s')"
proof -
  from iweh_user [OF assms(4), of n NoContext args vm "''v-on handler''"]
  obtain r s' where 1: "invokeWithErrorHandling (call (Suc n)) (Ref f) NoContext args vm ''v-on handler'' s
                          = Some (r, s')"
    and 2: "r = (case user_outcome (heap s) f of Return v \<Rightarrow> v | Throw z \<Rightarrow> Undefined)"
    and 3: "trace s' = trace s @ invocation (heap s) f NoContext args vm ''v-on handler''"
    and 4: "extends (heap s) (heap s')"
    by (elim exE conjE)
  have "call (Suc (Suc n)) i this args s = Some (Return r, s')"
    unfolding call_invoker [OF assms(1,2)]
    using assms(3) 1 isArray_user [OF assms(4)]
    by (simp add: invoker_def get_fns_self [OF assms(1)] Let_def del: call.simps)
  with 2 3 4 show ?thesis by simp
qed

text \<open>
  Claim C9. With several user callbacks registered for an event, \<^verbatim>\<open>$emit\<close> enters every
  one of them in order and returns, whichever of them throw: each fault is passed to
  the error handler right after the callback that raised it, tagged with the instance
  and with \<^verbatim>\<open>event handler for "<name>"\<close>, and the next callback runs. An invoker whose
  payload is an array does the same with the tag \<^verbatim>\<open>v-on handler\<close> and the instance it
  was created for, and returns \<^verbatim>\<open>undefined\<close>; an invoker with a single payload returns a
  value and never throws. The error boundary itself is modelled from the specification.
\<close>

theorem faults_are_isolated:
  "(vm_events s e = Some (Cbs cbs) \<and> (\<forall>f\<in>set cbs. is_user (heap s) f) \<longrightarrow>
      (\<exists>s'. vm_emit (Suc n) production e args s = Some s'
         \<and> trace s' = trace (emit_tip production e s)
              @ concat (map (\<lambda>f. invocation (heap s) f Vm args Vm (emit_info e)) cbs)))
   \<and> (i < length (heap s) \<and> obj_kind (heap s ! i) = Invoker vm
        \<and> isArray (heap s) (prop_fns (heap s ! i))
        \<and> (\<forall>f\<in>set (array_elems (heap s) (prop_fns (heap s ! i))). is_user (heap s) f) \<longrightarrow>
      (\<exists>s'. call (Suc (Suc n)) i this args s = Some (Return Undefined, s')
         \<and> trace s' = trace s
              @ concat (map (\<lambda>f. invocation (heap s) f NoContext args vm ''v-on handler'')
                          (array_elems (heap s) (prop_fns (heap s ! i))))))
   \<and> (i < length (heap s) \<and> obj_kind (heap s ! i) = Invoker vm
        \<and> prop_fns (heap s ! i) = Ref g \<and> is_user (heap s) g \<longrightarrow>
      (\<exists>r s'. call (Suc (Suc n)) i this args s = Some (Return r, s')
         \<and> trace s' = trace s @ invocation (heap s) g NoContext args vm ''v-on handler''))
   \<and> invocation h f this args vm info =
        Called f this args #
          (case user_outcome h f of Throw x \<Rightarrow> [HandledError x vm info] | Return r \<Rightarrow> [])
   \<and> emit_info e = ''event handler for '' @ [CHR 0x22] @ e @ [CHR 0x22]"
proof (intro conjI impI)
  assume "vm_events s e = Some (Cbs cbs) \<and> (\<forall>f\<in>set cbs. is_user (heap s) f)"
  then show "\<exists>s'. vm_emit (Suc n) production e args s = Some s'
         \<and> trace s' = trace (emit_tip production e s)
              @ concat (map (\<lambda>f. invocation (heap s) f Vm args Vm (emit_info e)) cbs)"
    using emit_users [of s e cbs n production args] by blast
next
  assume "i < length (heap s) \<and> obj_kind (heap s ! i) = Invoker vm
        \<and> isArray (heap s) (prop_fns (heap s ! i))
        \<and> (\<forall>f\<in>set (array_elems (heap s) (prop_fns (heap s ! i))). is_user (heap s) f)"
  then show "\<exists>s'. call (Suc (Suc n)) i this args s = Some (Return Undefined, s')
         \<and> trace s' = trace s
              @ concat (map (\<lambda>f. invocation (heap s) f NoContext args vm ''v-on handler'')
                          (array_elems (heap s) (prop_fns (heap s ! i))))"
    using invoker_array [of i s vm n this args] by blast
next
  assume "i < length (heap s) \<and> obj_kind (heap s ! i) = Invoker vm
        \<and> prop_fns (heap s ! i) = Ref g \<and> is_user (heap s) g"
  then show "\<exists>r s'. call (Suc (Suc n)) i this args s = Some (Return r, s')
         \<and> trace s' = trace s @ invocation (heap s) g NoContext args vm ''v-on handler''"
    using invoker_single [of i s vm g n this args] by blast
next
  show "invocation h f this args vm info =
        Called f this args #
          (case user_outcome h f of Throw x \<Rightarrow> [HandledError x vm info] | Return r \<Rightarrow> [])"
    by (simp add: invocation_def)
  show "emit_info e = ''event handler for '' @ [CHR 0x22] @ e @ [CHR 0x22]"
    by (simp add: emit_info_def)
qed

lemma fault_state_eval:
  "vm_events fault_state ''e'' = Some (Cbs [2, 0])" "heap fault_state = heap example_state"
  by (simp_all add: fault_state_def vm_on_def on_one_def hookRE_test_def Let_def example_state_def)

theorem faults_are_isolated_witness:
  "vm_events fault_state ''e'' = Some (Cbs [2, 0])
   \<and> (\<exists>s'. vm_emit (Suc 0) True ''e'' [] fault_state = Some s'
         \<and> trace s' = [Called 2 Vm [], HandledError (Thrown 7) Vm (emit_info ''e''), Called 0 Vm []])"
proof -
  have u: "\<forall>f\<in>set [2, 0]. is_user (heap fault_state) f"
    by (simp add: fault_state_eval example_state_def is_user_def)
  have t: "trace fault_state = []"
    by (simp add: fault_state_def example_state_def)
  have i: "invocation (heap example_state) 2 Vm [] Vm (emit_info ''e'')
             @ invocation (heap example_state) 0 Vm [] Vm (emit_info ''e'')
         = [Called 2 Vm [], HandledError (Thrown 7) Vm (emit_info ''e''), Called 0 Vm []]"
    by (simp add: example_state_def invocation_def user_outcome_def)
  from faults_are_isolated [where s = fault_state and e = "''e''" and cbs = "[2, 0]" and n = 0
         and production = True and args = "[]"]
       fault_state_eval(1) u
  have "\<exists>s'. vm_emit (Suc 0) True ''e'' [] fault_state = Some s'
         \<and> trace s' = trace (emit_tip True ''e'' fault_state)
              @ concat (map (\<lambda>f. invocation (heap fault_state) f Vm [] Vm (emit_info ''e'')) [2, 0])"
    by blast
  then show ?thesis
    by (simp add: t i fault_state_eval)
qed

section \<open>Changing the callback of a name that persists\<close>

text \<open>When the registered handler of the name is the invoker itself, the branch
  \<^verbatim>\<open>cur !== old\<close> makes no call, keeps the invoker and replaces its payload, and the next
  invocation of the invoker enters the new callback.\<close>


lemma changed_callback_reaches_invoker:
  assumes "i < length (heap s)" and "obj_kind (heap s ! i) = Invoker vm"
    and "lookupv oldOn k = Ref i" and "is_user (heap s) g" and "g \<noteq> i"
  shows "on_entry production H oldOn vm' k (Ref g) s = (Ref i, [], set_fns (Ref i) (Ref g) s)"
    and "\<exists>r s'. call (Suc (Suc n)) i this args (set_fns (Ref i) (Ref g) s) = Some (Return r, s')
           \<and> trace s' = trace s @ invocation (heap s) g NoContext args vm ''v-on handler''"
proof -
  show "on_entry production H oldOn vm' k (Ref g) s = (Ref i, [], set_fns (Ref i) (Ref g) s)"
    using on_entry_changed [of "Ref g" oldOn k production H vm' s] assms(3,5)
    by (simp add: isUndef_def)
  let ?s = "set_fns (Ref i) (Ref g) s"
  have h: "heap ?s = (heap s)[i := (heap s ! i)\<lparr>prop_fns := Ref g\<rparr>]"
    by (simp add: set_fns_def)
  from assms(4) have gl: "g < length (heap s)" by (simp add: is_user_def)
  have 1: "i < length (heap ?s)" using assms(1) by (simp add: h)
  have 2: "obj_kind (heap ?s ! i) = Invoker vm" using assms(1,2) by (simp add: h)
  have 3: "prop_fns (heap ?s ! i) = Ref g" using assms(1) by (simp add: h)
  have 4: "is_user (heap ?s) g" using assms(4,5) by (simp add: h is_user_def)
  have 5: "invocation (heap ?s) g NoContext args vm ''v-on handler''
             = invocation (heap s) g NoContext args vm ''v-on handler''"
    using assms(5) by (simp add: h invocation_def user_outcome_def)
  have 6: "trace ?s = trace s" by (simp add: set_fns_def)
  from invoker_single [OF 1 2 3 4, of n this args]
  show "\<exists>r s'. call (Suc (Suc n)) i this args ?s = Some (Return r, s')
           \<and> trace s' = trace s @ invocation (heap s) g NoContext args vm ''v-on handler''"
    unfolding 5 6 by blast
qed


text \<open>
  Claim C2 fails on the code for a name that carries the once marker. A first pass over
  \<^verbatim>\<open>{"~a": f0}\<close> registers a once-handler (object 4) around an invoker (object 3) whose
  payload is \<^verbatim>\<open>f0\<close>. A second pass over \<^verbatim>\<open>{"~a": f1}\<close> makes no call and keeps object 4,
  but \<^verbatim>\<open>old.fns = cur\<close> sets the property on the once-handler: the invoker keeps \<^verbatim>\<open>f0\<close>,
  and emitting \<^verbatim>\<open>a\<close> enters \<^verbatim>\<open>f0\<close>, not \<^verbatim>\<open>f1\<close>.
\<close>

theorem once_name_keeps_old_callback:
  "(case updateComponentListeners True [(''~a'', Ref 0)] None example_state of
      (on1, calls1, s1) \<Rightarrow>
    (case updateComponentListeners True [(''~a'', Ref 1)] (Some on1) s1 of
      (on2, calls2, s2) \<Rightarrow>
        on1 = [(''~a'', Ref 4)] \<and> calls1 = [Add ''a'' 4 False False Undefined]
        \<and> on2 = [(''~a'', Ref 4)] \<and> calls2 = []
        \<and> obj_kind (heap s2 ! 4) = OnceHandler ''a'' 3 \<and> prop_fns (heap s2 ! 4) = Ref 1
        \<and> obj_kind (heap s2 ! 3) = Invoker Vm \<and> prop_fns (heap s2 ! 3) = Ref 0
        \<and> vm_events s2 ''a'' = Some (Cbs [4])
        \<and> map_option trace (vm_emit 3 True ''a'' [] s2) = Some [Called 0 NoContext []]))"
  by code_simp

section \<open>One-shot handlers registered by the reconciler\<close>


lemma normalizeEvent_once:
  assumes "carries_no_marker e"
  shows "normalizeEvent (CHR ''~'' # e) =
           \<lparr>ev_name = e, ev_once = True, ev_capture = False, ev_passive = False\<rparr>"
  using assms
  by (cases e) (auto simp: carries_no_marker_def normalizeEvent_def charAt_def slice_def Let_def)

lemma once_registration:
  assumes "is_user (heap s) f" and "prop_fns (heap s ! f) = Undefined" and "carries_no_marker e"
  shows "updateComponentListeners production [(CHR ''~'' # e, Ref f)] None s =
           ([(CHR ''~'' # e, Ref (Suc (length (heap s))))],
            [Add e (Suc (length (heap s))) False False Undefined],
            on_one e (Suc (length (heap s)))
              (s\<lparr>heap := heap s @
                   [\<lparr>obj_kind = Invoker Vm, prop_fns = Ref f, prop_fn = Undefined\<rparr>,
                    \<lparr>obj_kind = OnceHandler e (length (heap s)), prop_fns = Undefined,
                       prop_fn = Undefined\<rparr>]\<rparr>))"
proof -
  from assms(1) have fl: "f < length (heap s)" by (simp add: is_user_def)
  have g: "get_fns (heap s) (Ref f) = Undefined"
    using fl assms(2) by (simp add: get_fns_def)
  show ?thesis
    by (simp add: updateComponentListeners_def updateListeners_def on_entry_def lookupv_def
          isUndef_def isTrue_def normalizeEvent_once [OF assms(3)] g createFnInvoker_def
          events_host_def createOnceHandler_def add_def alloc_def vm_on_def Let_def)
qed

lemma call_onceHandler:
  assumes "w < length (heap s)" and "obj_kind (heap s ! w) = OnceHandler e fn"
  shows "call (Suc n) w this args s = onceHandler (call n) w e fn args s"
  using assms by (simp add: call_body_def)


lemma call_user_plain:
  assumes "is_user (heap s) f" and "user_actions (heap s) f = []"
  shows "call (Suc n) f this args s =
           Some (user_outcome (heap s) f, s\<lparr>trace := trace s @ [Called f this args]\<rparr>)"
  using call_user [OF assms(1), of n this args] assms(2) by (simp add: run_actions_def)

lemma invoker_single_plain:
  assumes "i < length (heap s)" and "obj_kind (heap s ! i) = Invoker vm"
    and "prop_fns (heap s ! i) = Ref f" and "is_user (heap s) f"
    and "user_actions (heap s) f = []" and "user_outcome (heap s) f = Return r"
  shows "call (Suc (Suc n)) i this args s =
           Some (Return r, s\<lparr>trace := trace s @ [Called f NoContext args]\<rparr>)"
  unfolding call_invoker [OF assms(1,2)]
  using assms(3,6) isArray_user [OF assms(4)] call_user_plain [OF assms(4,5), of n NoContext args]
  by (simp add: invoker_def get_fns_self [OF assms(1)] invokeWithErrorHandling_def apply_val_def
        Let_def del: call.simps)

lemma once_handler_fires:
  assumes "w < length (heap s)" and "obj_kind (heap s ! w) = OnceHandler e i"
    and "i < length (heap s)" and "obj_kind (heap s ! i) = Invoker vm"
    and "prop_fns (heap s ! i) = Ref f" and "is_user (heap s) f"
    and "user_actions (heap s) f = []" and "user_outcome (heap s) f = Return r"
  shows "call (Suc (Suc (Suc n))) w this args s =
           Some (Return Undefined,
                 if r \<noteq> Null
                 then vm_off (Off (Name e) (Ref w)) (s\<lparr>trace := trace s @ [Called f NoContext args]\<rparr>)
                 else s\<lparr>trace := trace s @ [Called f NoContext args]\<rparr>)"
  unfolding call_onceHandler [OF assms(1,2)]
  using invoker_single_plain [OF assms(3-8), of n NoContext args]
  by (simp add: onceHandler_def del: call.simps)

lemma emit_single:
  assumes "vm_events s e = Some (Cbs [w])"
    and "call fuel w Vm args (emit_tip production e s) = Some (Return r, s')"
  shows "vm_emit fuel production e args s = Some s'"
  using assms
  by (simp add: vm_emit_def invokeWithErrorHandling_def apply_val_def Let_def del: call.simps)

lemma emit_empty:
  assumes "vm_events s e = Some (Cbs [])"
  shows "vm_emit fuel production e args s = Some (emit_tip production e s)"
  using assms by (simp add: vm_emit_def Let_def)

lemma entry_cbs_Some: "vm_events s e = Some (Cbs xs) \<Longrightarrow> entry_cbs (vm_events s e) = xs"
  by (simp add: entry_cbs_def)

lemma once_scenario:
  assumes u: "is_user (heap s) f" and a: "user_actions (heap s) f = []"
    and o: "user_outcome (heap s) f = Return r" and p: "prop_fns (heap s ! f) = Undefined"
    and m: "carries_no_marker e" and b: "entry_cbs (vm_events s e) = []"
  shows "\<exists>on1 s1 s2.
           updateComponentListeners production [(CHR ''~'' # e, Ref f)] None s =
             (on1, [Add e (Suc (length (heap s))) False False Undefined], s1)
         \<and> obj_kind (heap s1 ! Suc (length (heap s))) = OnceHandler e (length (heap s))
         \<and> vm_events s1 e = Some (Cbs [Suc (length (heap s))])
         \<and> vm_emit (Suc (Suc (Suc n))) production e args s1 = Some s2
         \<and> filter is_Called (trace s2) = filter is_Called (trace s) @ [Called f NoContext args]
         \<and> vm_events s2 e = Some (Cbs (if r = Null then [Suc (length (heap s))] else []))"
proof -
  let ?i = "length (heap s)"
  let ?w = "Suc (length (heap s))"
  let ?h = "heap s @ [\<lparr>obj_kind = Invoker Vm, prop_fns = Ref f, prop_fn = Undefined\<rparr>,
                    \<lparr>obj_kind = OnceHandler e ?i, prop_fns = Undefined, prop_fn = Undefined\<rparr>]"
  let ?s1 = "on_one e ?w (s\<lparr>heap := ?h\<rparr>)"
  let ?s0 = "emit_tip production e ?s1"
  let ?t = "?s0\<lparr>trace := trace ?s0 @ [Called f NoContext args]\<rparr>"
  let ?s2 = "if r \<noteq> Null then vm_off (Off (Name e) (Ref ?w)) ?t else ?t"
  from u have fl: "f < length (heap s)" by (simp add: is_user_def)
  have ex: "extends (heap s) ?h" by (rule extends_append)
  have h0: "heap ?s0 = ?h" by simp
  have 1: "updateComponentListeners production [(CHR ''~'' # e, Ref f)] None s =
             ([(CHR ''~'' # e, Ref ?w)], [Add e ?w False False Undefined], ?s1)"
    by (rule once_registration [OF u p m])
  have ev: "vm_events ?s1 e = Some (Cbs [?w])"
    using b by (simp add: on_one_def entry_cbs_def Let_def split: option.splits entry.splits)
  have k: "obj_kind (heap ?s1 ! ?w) = OnceHandler e ?i"
    by (simp add: nth_append)
  have c: "call (Suc (Suc (Suc n))) ?w Vm args ?s0 = Some (Return Undefined, ?s2)"
  proof (rule once_handler_fires [where i = ?i and vm = Vm and f = f and r = r])
    show "?w < length (heap ?s0)" by simp
    show "obj_kind (heap ?s0 ! ?w) = OnceHandler e ?i" by (simp add: nth_append)
    show "?i < length (heap ?s0)" by simp
    show "obj_kind (heap ?s0 ! ?i) = Invoker Vm" by (simp add: nth_append)
    show "prop_fns (heap ?s0 ! ?i) = Ref f" by (simp add: nth_append)
    show "is_user (heap ?s0) f" unfolding h0 using ex u by (rule is_user_extends)
    show "user_actions (heap ?s0) f = []" unfolding h0 using a user_actions_extends [OF ex u] by simp
    show "user_outcome (heap ?s0) f = Return r" unfolding h0 using o user_outcome_extends [OF ex u] by simp
  qed
  have ev0: "vm_events ?s0 e = Some (Cbs [?w])" using ev by simp
  have 2: "vm_emit (Suc (Suc (Suc n))) production e args ?s1 = Some ?s2"
    using emit_single [OF ev c] .
  have 3: "filter is_Called (trace ?s2) = filter is_Called (trace s) @ [Called f NoContext args]"
    by simp
  have m: "off_match (heap ?t) (Ref ?w) ?w" by (simp add: off_match_def)
  have 4: "vm_events ?s2 e = Some (Cbs (if r = Null then [?w] else []))"
  proof (cases "r = Null")
    case True
    then show ?thesis using ev0 by simp
  next
    case False
    have "off_scan (heap ?t) [?w] (length [?w]) (Ref ?w) = []"
      using off_scan_split [OF m, of "[]" "[]"] by simp
    then show ?thesis
      using False ev0 by (simp add: vm_off_def off_one_def truthy_def)
  qed
  show ?thesis
    using 1 k ev 2 3 4 by blast
qed

text \<open>
  Claim C3, as stated, fails: a wrapped handler that returns \<^verbatim>\<open>undefined\<close> (not a defined
  value) still makes the once-handler remove itself; only \<^verbatim>\<open>null\<close> keeps it registered.
\<close>

theorem once_handler_removed_on_undefined:
  "user_outcome (heap example_state) 0 = Return Undefined
   \<and> user_outcome (heap example_state) 1 = Return Null
   \<and> (case updateComponentListeners True [(''~click'', Ref 0)] None example_state of
        (on1, calls, s1) \<Rightarrow>
          calls = [Add ''click'' 4 False False Undefined]
          \<and> obj_kind (heap s1 ! 4) = OnceHandler ''click'' 3
          \<and> vm_events s1 ''click'' = Some (Cbs [4])
          \<and> map_option (\<lambda>s2. vm_events s2 ''click'') (vm_emit 3 True ''click'' [] s1)
              = Some (Some (Cbs [])))
   \<and> (case updateComponentListeners True [(''~click'', Ref 1)] None example_state of
        (on1, calls, s1) \<Rightarrow>
          map_option (\<lambda>s2. vm_events s2 ''click'') (vm_emit 3 True ''click'' [] s1)
              = Some (Some (Cbs [4])))"
  by code_simp

text \<open>
  Claim C3, amended. The wrapper returned by \<^verbatim>\<open>createOnceHandler\<close> calls the wrapped handler
  with the arguments and, when that returns, unsubscribes itself from the instance
  exactly when the returned value is not \<^verbatim>\<open>null\<close> (\<^verbatim>\<open>undefined\<close> counts as fired). Reconciling
  an old map without the name against \<^verbatim>\<open>{"~e": f}\<close>, for a user callback \<^verbatim>\<open>f\<close> that returns
  \<open>r\<close>, issues one \<^verbatim>\<open>add(e, wrapper, false, false, undefined)\<close>; the first emission enters
  \<^verbatim>\<open>f\<close> once and leaves the wrapper registered exactly when \<open>r\<close> is \<^verbatim>\<open>null\<close>; once removed,
  later emissions enter nothing.
\<close>

theorem once_handler_removed_unless_null:
  "(w < length (heap s) \<and> obj_kind (heap s ! w) = OnceHandler e fn
      \<and> call n fn NoContext args s = Some (Return res, s1) \<longrightarrow>
      call (Suc n) w this args s =
        Some (Return Undefined, if res \<noteq> Null then vm_off (Off (Name e) (Ref w)) s1 else s1))
   \<and> (is_user (heap s) f \<and> user_actions (heap s) f = [] \<and> user_outcome (heap s) f = Return r
        \<and> prop_fns (heap s ! f) = Undefined \<and> carries_no_marker e
        \<and> entry_cbs (vm_events s e) = [] \<longrightarrow>
      (\<exists>on1 s1 s2.
           updateComponentListeners production [(CHR ''~'' # e, Ref f)] None s =
             (on1, [Add e (Suc (length (heap s))) False False Undefined], s1)
         \<and> obj_kind (heap s1 ! Suc (length (heap s))) = OnceHandler e (length (heap s))
         \<and> vm_events s1 e = Some (Cbs [Suc (length (heap s))])
         \<and> vm_emit (Suc (Suc (Suc m))) production e args s1 = Some s2
         \<and> filter is_Called (trace s2) = filter is_Called (trace s) @ [Called f NoContext args]
         \<and> vm_events s2 e = Some (Cbs (if r = Null then [Suc (length (heap s))] else []))
         \<and> (r \<noteq> Null \<longrightarrow>
              (\<exists>s3. vm_emit fuel production e args2 s2 = Some s3
                 \<and> filter is_Called (trace s3) = filter is_Called (trace s2)
                 \<and> vm_events s3 e = Some (Cbs [])))))"
proof (intro conjI impI)
  assume "w < length (heap s) \<and> obj_kind (heap s ! w) = OnceHandler e fn
      \<and> call n fn NoContext args s = Some (Return res, s1)"
  then show "call (Suc n) w this args s =
        Some (Return Undefined, if res \<noteq> Null then vm_off (Off (Name e) (Ref w)) s1 else s1)"
    using call_onceHandler [of w s e fn n this args]
    by (simp add: onceHandler_def del: call.simps)
next
  assume h: "is_user (heap s) f \<and> user_actions (heap s) f = [] \<and> user_outcome (heap s) f = Return r
        \<and> prop_fns (heap s ! f) = Undefined \<and> carries_no_marker e
        \<and> entry_cbs (vm_events s e) = []"
  then have u: "is_user (heap s) f" and a: "user_actions (heap s) f = []"
    and o: "user_outcome (heap s) f = Return r" and p: "prop_fns (heap s ! f) = Undefined"
    and m: "carries_no_marker e" and b: "entry_cbs (vm_events s e) = []"
    by simp_all
  from once_scenario [OF u a o p m b, of production m args]
  obtain on1 s1 s2 where
    1: "updateComponentListeners production [(CHR ''~'' # e, Ref f)] None s =
             (on1, [Add e (Suc (length (heap s))) False False Undefined], s1)"
    and 2: "obj_kind (heap s1 ! Suc (length (heap s))) = OnceHandler e (length (heap s))"
    and 3: "vm_events s1 e = Some (Cbs [Suc (length (heap s))])"
    and 4: "vm_emit (Suc (Suc (Suc m))) production e args s1 = Some s2"
    and 5: "filter is_Called (trace s2) = filter is_Called (trace s) @ [Called f NoContext args]"
    and 6: "vm_events s2 e = Some (Cbs (if r = Null then [Suc (length (heap s))] else []))"
    by (elim exE conjE)
  have 7: "r \<noteq> Null \<longrightarrow>
              (\<exists>s3. vm_emit fuel production e args2 s2 = Some s3
                 \<and> filter is_Called (trace s3) = filter is_Called (trace s2)
                 \<and> vm_events s3 e = Some (Cbs []))"
  proof
    assume "r \<noteq> Null"
    with 6 have "vm_events s2 e = Some (Cbs [])" by simp
    then show "\<exists>s3. vm_emit fuel production e args2 s2 = Some s3
                 \<and> filter is_Called (trace s3) = filter is_Called (trace s2)
                 \<and> vm_events s3 e = Some (Cbs [])"
      using emit_empty [of s2 e fuel production args2] by simp
  qed
  show "\<exists>on1 s1 s2.
           updateComponentListeners production [(CHR ''~'' # e, Ref f)] None s =
             (on1, [Add e (Suc (length (heap s))) False False Undefined], s1)
         \<and> obj_kind (heap s1 ! Suc (length (heap s))) = OnceHandler e (length (heap s))
         \<and> vm_events s1 e = Some (Cbs [Suc (length (heap s))])
         \<and> vm_emit (Suc (Suc (Suc m))) production e args s1 = Some s2
         \<and> filter is_Called (trace s2) = filter is_Called (trace s) @ [Called f NoContext args]
         \<and> vm_events s2 e = Some (Cbs (if r = Null then [Suc (length (heap s))] else []))
         \<and> (r \<noteq> Null \<longrightarrow>
              (\<exists>s3. vm_emit fuel production e args2 s2 = Some s3
                 \<and> filter is_Called (trace s3) = filter is_Called (trace s2)
                 \<and> vm_events s3 e = Some (Cbs [])))"
    using 1 2 3 4 5 6 7 by blast
qed

theorem once_handler_removed_unless_null_witness:
  "\<exists>on1 s1 s2.
      updateComponentListeners True [(''~click'', Ref 0)] None example_state =
        (on1, [Add ''click'' 4 False False Undefined], s1)
    \<and> vm_emit (Suc (Suc (Suc 0))) True ''click'' [] s1 = Some s2
    \<and> filter is_Called (trace s2) = [Called 0 NoContext []]
    \<and> vm_events s2 ''click'' = Some (Cbs [])"
proof -
  have h: "is_user (heap example_state) 0 \<and> user_actions (heap example_state) 0 = []
        \<and> user_outcome (heap example_state) 0 = Return Undefined
        \<and> prop_fns (heap example_state ! 0) = Undefined \<and> carries_no_marker ''click''
        \<and> entry_cbs (vm_events example_state ''click'') = []"
    by (simp add: example_state_def is_user_def user_actions_def user_outcome_def
          carries_no_marker_def entry_cbs_def)
  have l: "Suc (length (heap example_state)) = 4" "filter is_Called (trace example_state) = []"
    by (simp_all add: example_state_def)
  from once_handler_removed_unless_null
         [where s = example_state and f = 0 and r = Undefined and e = "''click''"
            and production = True and m = 0 and args = "[]" and fuel = 0 and ?args2.0 = "[]"
            and w = 0 and n = 0 and fn = 0 and this = Vm and res = Null and ?s1.0 = example_state,
          THEN conjunct2, rule_format, OF h]
  obtain on1 s1 s2 where
    1: "updateComponentListeners True [(''~click'', Ref 0)] None example_state =
          (on1, [Add ''click'' (Suc (length (heap example_state))) False False Undefined], s1)"
    and 2: "vm_emit (Suc (Suc (Suc 0))) True ''click'' [] s1 = Some s2"
    and 3: "filter is_Called (trace s2) =
              filter is_Called (trace example_state) @ [Called 0 NoContext []]"
    and 4: "vm_events s2 ''click'' =
              Some (Cbs (if Undefined = Null then [Suc (length (heap example_state))] else []))"
    by (elim exE conjE)
  show ?thesis
    by (rule exI [of _ on1], rule exI [of _ s1], rule exI [of _ s2])
       (simp add: 1 2 3 4 l)
qed

section \<open>One-shot subscriptions of the bus\<close>








section \<open>The hook flag across unsubscription and re-initialisation\<close>


lemma alloc_flag [simp]: "vm_hasHookEvent (snd (alloc k a b s)) = vm_hasHookEvent s"
  by (simp add: alloc_def)

lemma on_entry_flag:
  "vm_hasHookEvent (snd (snd (on_entry production events_host [] Vm k cur s))) =
     (vm_hasHookEvent s \<or> (\<not> isUndef cur \<and> hookRE_test (ev_name (normalizeEvent k))))"
proof (cases cur)
  case Undefined
  then show ?thesis by (simp add: on_entry_undef isUndef_def)
next
  case Null
  then show ?thesis by (simp add: on_entry_undef isUndef_def)
next
  case (Ref c)
  then show ?thesis
    by (auto simp: on_entry_def lookupv_def isUndef_def isTrue_def Let_def events_host_def
          add_def vm_on_def on_one_flag createFnInvoker_def createOnceHandler_def alloc_def
          split: prod.splits)
qed

lemma loop_on_flag:
  "vm_hasHookEvent (snd (snd (loop_on production events_host [] Vm ls s))) =
     (vm_hasHookEvent s
      \<or> (\<exists>x\<in>set ls. \<not> isUndef (snd x) \<and> hookRE_test (ev_name (normalizeEvent (fst x)))))"
proof (induction ls arbitrary: s)
  case Nil
  then show ?case by simp
next
  case (Cons a ls)
  obtain k cur where a: "a = (k, cur)" by (cases a)
  obtain cur1 calls1 s1 where e: "on_entry production events_host [] Vm k cur s = (cur1, calls1, s1)"
    by (cases "on_entry production events_host [] Vm k cur s")
  have f: "vm_hasHookEvent s1 =
     (vm_hasHookEvent s \<or> (\<not> isUndef cur \<and> hookRE_test (ev_name (normalizeEvent k))))"
    using on_entry_flag [of production k cur s] e by simp
  show ?case
    using Cons.IH [of s1] f by (auto simp: a e split: prod.splits)
qed

lemma initEvents_flag:
  "vm_hasHookEvent (initEvents production (Some ls) s) =
     (\<exists>x\<in>set ls. \<not> isUndef (snd x) \<and> hookRE_test (ev_name (normalizeEvent (fst x))))"
  using loop_on_flag [of production ls "s\<lparr>vm_events := Map.empty, vm_hasHookEvent := False\<rparr>"]
  by (simp add: initEvents_def updateComponentListeners_def updateListeners_def Let_def
        split_beta)

text \<open>
  Claim C10. \<^verbatim>\<open>$off()\<close> replaces the event mapping by a fresh empty one and changes
  nothing else; no form of \<^verbatim>\<open>$off\<close> changes \<^verbatim>\<open>_hasHookEvent\<close>; \<^verbatim>\<open>$on\<close> sets the flag
  when the name matches \<^verbatim>\<open>/^hook:/\<close> and otherwise leaves it; so after a subscription to
  a hook name the flag is true after any sequence of unsubscribe operations. \<open>initEvents\<close>
  sets the flag to false; when it then subscribes parent listeners, the flag ends up
  true exactly when one of them is a defined handler under a hook name.
\<close>

theorem off_never_resets_hasHookEvent:
  "vm_off OffAll s = s\<lparr>vm_events := Map.empty\<rparr>
   \<and> vm_hasHookEvent (vm_off a s) = vm_hasHookEvent s
   \<and> vm_hasHookEvent (vm_on (Name e) f s) = (hookRE_test e \<or> vm_hasHookEvent s)
   \<and> vm_hasHookEvent (fold vm_off as (vm_on (Name (''hook:'' @ n)) f s)) = True
   \<and> vm_hasHookEvent (initEvents production None s) = False
   \<and> vm_hasHookEvent (initEvents production (Some ls) s) =
        (\<exists>x\<in>set ls. \<not> isUndef (snd x) \<and> hookRE_test (ev_name (normalizeEvent (fst x))))"
proof -
  have "vm_off OffAll s = s\<lparr>vm_events := Map.empty\<rparr>"
    by (simp add: vm_off_def)
  moreover have "vm_hasHookEvent (initEvents production None s) = False"
    by (simp add: initEvents_def)
  ultimately show ?thesis
    by (simp add: vm_off_flag fold_vm_off_flag vm_on_def on_one_flag hookRE_test_def
          initEvents_flag)
qed

theorem off_never_resets_hasHookEvent_witness:
  "vm_hasHookEvent (vm_off OffAll (vm_on (Name ''hook:mounted'') 0 example_state)) = True
   \<and> vm_events (vm_off OffAll (vm_on (Name ''hook:mounted'') 0 example_state)) = Map.empty
   \<and> vm_hasHookEvent
        (initEvents True None (vm_on (Name ''hook:mounted'') 0 example_state)) = False"
  using off_never_resets_hasHookEvent
          [where s = "vm_on (Name ''hook:mounted'') 0 example_state" and a = OffAll
             and e = "''x''" and f = 0 and as = "[]" and n = "''x''" and production = True
             and ls = "[]"]
        off_never_resets_hasHookEvent
          [where s = example_state and a = OffAll and e = "''hook:mounted''" and f = 0
             and as = "[]" and n = "''x''" and production = True and ls = "[]"]
  by (simp add: hookRE_test_def)

end
